theory Spec2Isabelle
  imports Main "HOL-Library.Word" "HOL-Library.AList" "HOL-Library.Sublist"
begin

section \<open>The index of exchange/index: data\<close>

text \<open>
  Go's \<open>int64\<close> and \<open>uint64\<close> are 64-bit words: \<open>+\<close> and \<open>-\<close> wrap, \<open><\<close> on
  \<open>uint64\<close> is the unsigned order of words, \<open><\<close> on \<open>int64\<close> is \<^const>\<open>word_sless\<close>.
  The conversion \<open>uint64(ref.PayloadSize)\<close> keeps the 64 bits, so it is the identity here.
\<close>

type_synonym int64 = "64 word"
type_synonym uint64 = "64 word"

text \<open>
  A \<open>*list.Element\<close> is an address in one of two arenas: the elements made for
  \<open>idx.blist\<close> carry a \<open>*bucket\<close>, those made for \<open>idx.freqs\<close> a \<open>*listEntry\<close>.
  The type assertion \<open>.(*bucket)\<close> on an element of the other list panics.
\<close>

datatype element = BlistElem nat | FreqsElem nat

record DataRef =
  PayloadCID :: string
  PayloadSize :: int64
  StoreID :: uint64
  Freq :: int64
  BucketID :: int64
  bucketNode :: "element option"

text \<open>
  \<open>entries map[*DataRef]byte\<close> is a set of addresses. It is kept as a list without
  repetition, in the order of insertion; Go visits a map in an order it does not
  specify, so every \<open>range\<close> over the entries goes through the \<open>iter\<close> of the
  environment below and never reads this order directly.
\<close>

record bucket =
  id_b :: int64
  entries :: "nat list"

record listEntry =
  entries_l :: "nat list"
  freq :: int64

datatype error =
    ErrRefNotFound
  | ErrHamt
  | ErrFlush
  | ErrMsDelete
  | ErrLoadRoot
  | ErrUnmarshal
  | ErrNothingInteresting
  | ErrInterestRefNotFound

text \<open>
  The state of an \<open>Index\<close> together with the objects it points to:
  \<^item> \<open>heap\<close>: the \<open>DataRef\<close> objects, by address (a \<open>*DataRef\<close> is an address);
    \<open>next_ref\<close> is the next address \<open>new(DataRef)\<close> hands out;
  \<^item> \<open>blist\<close>: the elements linked in \<open>idx.blist\<close>, front first; \<open>nodes_b\<close> gives the
    bucket of every element ever made for it (an element removed from the list keeps
    its value), \<open>next_b\<close> the next element address;
  \<^item> \<open>freqs\<close>, \<open>nodes_f\<close>, \<open>next_f\<close>: the same for \<open>idx.freqs\<close>;
  \<^item> \<open>Refs\<close>, \<open>interest\<close>: the two Go maps, as association lists with unique keys;
  \<^item> \<open>root\<close>: the HAMT in memory (key to the serialised record: the exported
    fields, the back-pointer is not serialised); \<open>rootCID\<close> and \<open>ds_idx\<close>: the
    root last put to the block store and the one written under \<open>KIndex\<close>;
  \<^item> \<open>ms_deleted\<close>: the store ids that \<open>ms.Delete\<close> has deleted, latest first;
  \<^item> \<open>mu\<close>: whether \<open>idx.mu\<close> is locked. \<open>idx.imu\<close> is released by \<open>defer\<close> on
    every path and is not tracked.
\<close>

record Index =
  ub :: uint64
  lb :: uint64
  mu :: bool
  size_idx :: uint64
  blist :: "nat list"
  nodes_b :: "nat \<Rightarrow> bucket"
  next_b :: nat
  Refs :: "(string \<times> nat) list"
  heap :: "nat \<Rightarrow> DataRef"
  next_ref :: nat
  root :: "(string \<times> DataRef) list"
  rootCID :: "(string \<times> DataRef) list option"
  ds_idx :: "(string \<times> DataRef) list option"
  ms_deleted :: "uint64 list"
  freqs :: "nat list"
  nodes_f :: "nat \<Rightarrow> listEntry"
  next_f :: nat
  interest :: "(string \<times> nat) list"

text \<open>
  What a call does: it returns (a value and the state it leaves), it panics, or it
  waits for ever on \<open>idx.mu.Lock()\<close> because the mutex is held and nothing will
  release it.
\<close>

datatype 'a outcome = Return 'a Index | Panic | Blocked

text \<open>
  What the index cannot decide by itself, given to every call:
  \<^item> \<open>iter es\<close>: the order in which a \<open>range\<close> over a map with the entries \<open>es\<close>
    visits them;
  \<^item> \<open>ms_delete_fails i\<close>: \<open>ms.Delete(i)\<close> returns an error;
  \<^item> \<open>hamt_fails\<close>: \<open>root.Set\<close> or \<open>root.Delete\<close> returns an error;
  \<^item> \<open>flush_res\<close>: where \<open>Flush\<close> fails, if it does.
\<close>

datatype flush_result = FlushOk | FlushRootFails | FlushPutFails | FlushDsFails

record env =
  iter :: "nat list \<Rightarrow> nat list"
  ms_delete_fails :: "uint64 \<Rightarrow> bool"
  hamt_fails :: bool
  flush_res :: flush_result

definition valid_iter :: "(nat list \<Rightarrow> nat list) \<Rightarrow> bool" where
  "valid_iter it \<longleftrightarrow> (\<forall>es. distinct es \<longrightarrow> distinct (it es) \<and> set (it es) = set es)"

section \<open>container/list\<close>

text \<open>
  A list is the sequence of its elements. \<open>e.Next()\<close> is nil when \<open>e\<close> is the last
  element and also when \<open>e\<close> has been removed (\<open>Remove\<close> clears \<open>e.list\<close>);
  \<open>InsertAfter\<close> and \<open>InsertBefore\<close> return nil and change nothing when the mark
  is not an element of the list; \<open>Remove\<close> of such an element changes nothing.
\<close>

definition Front :: "nat list \<Rightarrow> nat option" where
  "Front l = (case l of [] \<Rightarrow> None | e # _ \<Rightarrow> Some e)"

definition Back :: "nat list \<Rightarrow> nat option" where
  "Back l = (if l = [] then None else Some (last l))"

fun Next :: "nat list \<Rightarrow> nat \<Rightarrow> nat option" where
  "Next [] e = None"
| "Next [x] e = None"
| "Next (x # y # l) e = (if x = e then Some y else Next (y # l) e)"

fun insert_after :: "nat \<Rightarrow> nat \<Rightarrow> nat list \<Rightarrow> nat list" where
  "insert_after n mark [] = []"
| "insert_after n mark (x # l) = (if x = mark then x # n # l else x # insert_after n mark l)"

fun insert_before :: "nat \<Rightarrow> nat \<Rightarrow> nat list \<Rightarrow> nat list" where
  "insert_before n mark [] = []"
| "insert_before n mark (x # l) = (if x = mark then n # x # l else x # insert_before n mark l)"

definition Remove :: "nat \<Rightarrow> nat list \<Rightarrow> nat list" where
  "Remove e l = removeAll e l"

section \<open>The bucket list of the held index\<close>

definition newBucket :: "int64 \<Rightarrow> bucket" where
  "newBucket i = \<lparr>id_b = i, entries = []\<rparr>"

text \<open>\<open>b.entries[ref] = 1\<close>: a key that is present stays where it is.\<close>

definition put_entry :: "nat \<Rightarrow> nat list \<Rightarrow> nat list" where
  "put_entry p es = (if p \<in> set es then es else es @ [p])"

definition PushFront_b :: "bucket \<Rightarrow> Index \<Rightarrow> nat option \<times> Index" where
  "PushFront_b b s =
     (Some (next_b s),
      s\<lparr>blist := next_b s # blist s, nodes_b := (nodes_b s)(next_b s := b),
        next_b := Suc (next_b s)\<rparr>)"

definition InsertAfter_b :: "bucket \<Rightarrow> nat \<Rightarrow> Index \<Rightarrow> nat option \<times> Index" where
  "InsertAfter_b b mark s =
     (if mark \<in> set (blist s)
      then (Some (next_b s),
            s\<lparr>blist := insert_after (next_b s) mark (blist s),
              nodes_b := (nodes_b s)(next_b s := b), next_b := Suc (next_b s)\<rparr>)
      else (None, s))"

definition remBlistEntry :: "nat \<Rightarrow> nat \<Rightarrow> Index \<Rightarrow> Index" where
  "remBlistEntry place entry s =
     (let b = nodes_b s place;
          b' = b\<lparr>entries := removeAll entry (entries b)\<rparr>;
          s' = s\<lparr>nodes_b := (nodes_b s)(place := b')\<rparr>
      in if entries b' = [] then s'\<lparr>blist := Remove place (blist s')\<rparr> else s')"

text \<open>
  \<open>increment\<close>. The source tests \<open>currentPlace == nil\<close> four times; here the
  test is made once, on \<open>ref.bucketNode\<close>, and each branch reads as the source does
  under that outcome.
  \<^item> \<open>target_new\<close>, \<open>target_up\<close>: \<open>nextID\<close> and \<open>nextPlace\<close> for a new entry and
    for a move up;
  \<^item> \<open>needs_bucket\<close>: \<open>nextPlace == nil || nextPlace.Value.(*bucket).id != nextID\<close>;
  \<^item> \<open>place_ref\<close>: \<open>ref.Freq++\<close> for a move, \<open>ref.BucketID = nextID\<close>,
    \<open>ref.bucketNode = nextPlace\<close>, \<open>nextPlace.Value.(*bucket).entries[ref] = 1\<close>.
  \<open>None\<close> is a panic: the type assertion \<open>.(*bucket)\<close> on an element of \<open>freqs\<close>,
  or \<open>nextPlace.Value\<close> when \<open>InsertAfter\<close> returned nil.
\<close>

definition target_new :: "Index \<Rightarrow> int64 \<times> nat option" where
  "target_new s =
     (case Back (blist s) of
        None \<Rightarrow> (1, None)
      | Some b \<Rightarrow> (id_b (nodes_b s b), Some b))"

definition target_up :: "nat \<Rightarrow> Index \<Rightarrow> int64 \<times> nat option" where
  "target_up c s = (id_b (nodes_b s c) + 1, Next (blist s) c)"

definition needs_bucket :: "int64 \<times> nat option \<Rightarrow> Index \<Rightarrow> bool" where
  "needs_bucket tgt s =
     (case snd tgt of None \<Rightarrow> True | Some n \<Rightarrow> id_b (nodes_b s n) \<noteq> fst tgt)"

definition place_ref :: "nat \<Rightarrow> bool \<Rightarrow> int64 \<Rightarrow> nat \<Rightarrow> Index \<Rightarrow> Index" where
  "place_ref p moved nextID n s =
     s\<lparr>heap := (heap s)(p := (heap s p)
          \<lparr>Freq := (if moved then Freq (heap s p) + 1 else Freq (heap s p)),
           BucketID := nextID, bucketNode := Some (BlistElem n)\<rparr>),
       nodes_b := (nodes_b s)(n := (nodes_b s n)\<lparr>entries := put_entry p (entries (nodes_b s n))\<rparr>)\<rparr>"

definition increment :: "nat \<Rightarrow> Index \<Rightarrow> Index option" where
  "increment p s =
     (case bucketNode (heap s p) of
        None \<Rightarrow>
          (case (if needs_bucket (target_new s) s
                 then PushFront_b (newBucket (fst (target_new s))) s
                 else (snd (target_new s), s)) of
             (None, s1) \<Rightarrow> None
           | (Some n, s1) \<Rightarrow> Some (place_ref p False (fst (target_new s)) n s1))
      | Some (FreqsElem e) \<Rightarrow> None
      | Some (BlistElem c) \<Rightarrow>
          (case (if needs_bucket (target_up c s) s
                 then InsertAfter_b (newBucket (fst (target_up c s))) c s
                 else (snd (target_up c s), s)) of
             (None, s1) \<Rightarrow> None
           | (Some n, s1) \<Rightarrow>
               Some (remBlistEntry c p (place_ref p True (fst (target_up c s)) n s1))))"

section \<open>Eviction\<close>

text \<open>
  The body of the inner loop of \<open>evict\<close> in two steps: \<open>unhold\<close> is
  \<open>delete(idx.Refs, entry.PayloadCID.String())\<close>; \<open>reclaim\<close> is what follows a
  \<open>ms.Delete\<close> that succeeded (the bucket entry goes, the size is deducted).
\<close>

definition unhold :: "nat \<Rightarrow> Index \<Rightarrow> Index" where
  "unhold entry s = s\<lparr>Refs := AList.delete (PayloadCID (heap s entry)) (Refs s)\<rparr>"

definition reclaim :: "nat \<Rightarrow> nat \<Rightarrow> Index \<Rightarrow> Index" where
  "reclaim place entry s =
     (let r = heap s entry;
          s' = remBlistEntry place entry (s\<lparr>ms_deleted := StoreID r # ms_deleted s\<rparr>)
      in s'\<lparr>size_idx := size_idx s' - PayloadSize r\<rparr>)"

text \<open>
  The inner loop over the entries of one bucket, in the order the \<open>range\<close> visits
  them. The flag says that \<open>evicted >= size\<close> made \<open>evict\<close> return.
\<close>

fun evict_entries :: "env \<Rightarrow> uint64 \<Rightarrow> nat \<Rightarrow> nat list \<Rightarrow> uint64 \<times> Index \<Rightarrow> bool \<times> uint64 \<times> Index" where
  "evict_entries env target place [] (evicted, s) = (False, evicted, s)"
| "evict_entries env target place (entry # es) (evicted, s) =
     (if ms_delete_fails env (StoreID (heap s entry))
      then evict_entries env target place es (evicted, unhold entry s)
      else if target \<le> evicted + PayloadSize (heap s entry)
      then (True, evicted + PayloadSize (heap s entry), reclaim place entry (unhold entry s))
      else evict_entries env target place es
             (evicted + PayloadSize (heap s entry), reclaim place entry (unhold entry s)))"

text \<open>
  The outer loop, over the elements that follow in the list. When the bucket of
  \<open>place\<close> has been emptied, \<open>place\<close> has been removed from the list and
  \<open>place.Next()\<close> is nil: the walk ends there. Otherwise the list is as it was
  and \<open>place.Next()\<close> is the element that followed.
\<close>

fun evict_walk :: "env \<Rightarrow> uint64 \<Rightarrow> nat list \<Rightarrow> uint64 \<times> Index \<Rightarrow> uint64 \<times> Index" where
  "evict_walk env target [] (evicted, s) = (evicted, s)"
| "evict_walk env target (place # l) (evicted, s) =
     (case evict_entries env target place (iter env (entries (nodes_b s place))) (evicted, s) of
        (returned, evicted', s') \<Rightarrow>
          if returned then (evicted', s')
          else if place \<in> set (blist s') then evict_walk env target l (evicted', s')
          else (evicted', s'))"

definition evict :: "env \<Rightarrow> uint64 \<Rightarrow> Index \<Rightarrow> uint64 \<times> Index" where
  "evict env target s = evict_walk env target (blist s) (0, s)"

section \<open>The held index\<close>

definition marshal :: "DataRef \<Rightarrow> DataRef" where
  "marshal r = r\<lparr>bucketNode := None\<rparr>"

definition Flush :: "env \<Rightarrow> Index \<Rightarrow> error option \<times> Index" where
  "Flush env s =
     (case flush_res env of
        FlushRootFails \<Rightarrow> (Some ErrFlush, s)
      | FlushPutFails \<Rightarrow> (Some ErrFlush, s)
      | FlushDsFails \<Rightarrow> (Some ErrFlush, s\<lparr>rootCID := Some (root s)\<rparr>)
      | FlushOk \<Rightarrow> (None, s\<lparr>rootCID := Some (root s), ds_idx := Some (root s)\<rparr>))"

definition Available :: "Index \<Rightarrow> uint64 outcome" where
  "Available s =
     (if mu s then Blocked
      else let margin = ub s - lb s
           in if ub s - size_idx s < margin then Return 0 s
              else Return (ub s - size_idx s) s)"

text \<open>
  The first half of \<open>SetRef\<close>, up to the call of \<open>increment\<close>: the record enters
  the held map, its bytes are added, and \<open>evict\<close> runs when bounds are set and the
  size has passed the upper one.
\<close>

definition admit :: "env \<Rightarrow> nat \<Rightarrow> Index \<Rightarrow> Index" where
  "admit env p s =
     (let s1 = s\<lparr>Refs := AList.update (PayloadCID (heap s p)) p (Refs s),
                 size_idx := size_idx s + PayloadSize (heap s p)\<rparr>
      in if 0 < ub s1 \<and> 0 < lb s1 \<and> ub s1 < size_idx s1
         then snd (evict env (size_idx s1 - lb s1) s1) else s1)"

text \<open>\<open>idx.root.Set(ctx, k, ref)\<close> when it succeeds.\<close>

definition set_root :: "string \<Rightarrow> nat \<Rightarrow> Index \<Rightarrow> Index" where
  "set_root k p s = s\<lparr>root := AList.update k (marshal (heap s p)) (root s)\<rparr>"

definition SetRef :: "env \<Rightarrow> nat \<Rightarrow> Index \<Rightarrow> error option outcome" where
  "SetRef env p s =
     (if mu s then Blocked
      else case increment p (admit env p s) of
             None \<Rightarrow> Panic
           | Some s3 \<Rightarrow>
               if hamt_fails env then Return (Some ErrHamt) s3
               else (case Flush env (set_root (PayloadCID (heap s p)) p s3) of
                       (e, s4) \<Rightarrow> Return e s4))"

definition GetRef :: "env \<Rightarrow> string \<Rightarrow> Index \<Rightarrow> (nat option \<times> error option) outcome" where
  "GetRef env k s =
     (if mu s then Blocked
      else case map_of (Refs s) k of
             None \<Rightarrow> Return (None, Some ErrRefNotFound) s
           | Some p \<Rightarrow>
             (case increment p s of
                None \<Rightarrow> Panic
              | Some s1 \<Rightarrow>
                  if hamt_fails env then Return (None, Some ErrHamt) s1
                  else (case Flush env (set_root k p s1) of
                          (e, s2) \<Rightarrow> Return (Some p, e) s2)))"

definition PeekRef :: "string \<Rightarrow> Index \<Rightarrow> (nat option \<times> error option) outcome" where
  "PeekRef k s =
     (if mu s then Blocked
      else case map_of (Refs s) k of
             None \<Rightarrow> Return (None, Some ErrRefNotFound) s
           | Some p \<Rightarrow> Return (Some p, None) s)"

text \<open>
  \<open>DropRef\<close>. \<open>idx.Refs[k]\<close> of an absent key is nil and \<open>ref.bucketNode\<close> then
  panics; so does \<open>place.Value\<close> in \<open>remBlistEntry\<close> for a nil back-pointer.
\<close>

definition DropRef :: "env \<Rightarrow> string \<Rightarrow> Index \<Rightarrow> error option outcome" where
  "DropRef env k s =
     (if mu s then Blocked
      else if hamt_fails env then Return (Some ErrHamt) s
      else if map_of (root s) k = None then Return (Some ErrRefNotFound) s
      else
        (let s1 = s\<lparr>root := AList.delete k (root s)\<rparr>
         in case map_of (Refs s1) k of
              None \<Rightarrow> Panic
            | Some p \<Rightarrow>
              (case bucketNode (heap s1 p) of
                 Some (BlistElem place) \<Rightarrow>
                   (let s2 = remBlistEntry place p s1
                    in if ms_delete_fails env (StoreID (heap s2 p))
                       then Return (Some ErrMsDelete) s2
                       else (case Flush env (s2\<lparr>ms_deleted := StoreID (heap s2 p) # ms_deleted s2,
                                                 Refs := AList.delete k (Refs s2)\<rparr>) of
                               (e, s3) \<Rightarrow> Return e s3))
               | _ \<Rightarrow> Panic)))"

text \<open>
  \<open>ListRefs\<close>: the slice has \<open>len(idx.Refs)\<close> slots, filled from the front in the
  order of the walk; a slot that is never written stays nil, and writing past the
  last slot panics.
\<close>

definition walk_b :: "env \<Rightarrow> Index \<Rightarrow> nat list" where
  "walk_b env s = concat (map (\<lambda>e. iter env (entries (nodes_b s e))) (blist s))"

definition ListRefs :: "env \<Rightarrow> Index \<Rightarrow> (nat option list \<times> error option) outcome" where
  "ListRefs env s =
     (if mu s then Blocked
      else let n = length (Refs s); w = walk_b env s
           in if n < length w then Panic
              else Return (map Some w @ replicate (n - length w) None, None) s)"

definition Len :: "Index \<Rightarrow> nat outcome" where
  "Len s = (if mu s then Blocked else Return (length (Refs s)) s)"

text \<open>\<open>NewIndex\<close> on a datastore that holds no index yet.\<close>

definition zeroRef :: DataRef where
  "zeroRef = \<lparr>PayloadCID = [], PayloadSize = 0, StoreID = 0, Freq = 0, BucketID = 0,
              bucketNode = None\<rparr>"

definition emptyIndex :: Index where
  "emptyIndex =
     \<lparr>ub = 0, lb = 0, mu = False, size_idx = 0,
      blist = [], nodes_b = (\<lambda>_. newBucket 0), next_b = 0,
      Refs = [], heap = (\<lambda>_. zeroRef), next_ref = 0,
      root = [], rootCID = None, ds_idx = None, ms_deleted = [],
      freqs = [], nodes_f = (\<lambda>_. \<lparr>entries_l = [], freq = 0\<rparr>), next_f = 0,
      interest = []\<rparr>"

text \<open>\<open>WithBounds\<close>; \<open>None\<close> is its panic.\<close>

definition WithBounds :: "uint64 \<Rightarrow> uint64 \<Rightarrow> Index \<Rightarrow> Index option" where
  "WithBounds up lo idx = (if up < lo then None else Some (idx\<lparr>ub := up, lb := lo\<rparr>))"

fun apply_opts :: "(Index \<Rightarrow> Index option) list \<Rightarrow> Index \<Rightarrow> Index option" where
  "apply_opts [] idx = Some idx"
| "apply_opts (opt # opts) idx =
     (case opt idx of None \<Rightarrow> None | Some idx' \<Rightarrow> apply_opts opts idx')"

definition NewIndex :: "(Index \<Rightarrow> Index option) list \<Rightarrow> Index option" where
  "NewIndex opts = apply_opts opts emptyIndex"

text \<open>
  A caller's \<open>&DataRef{PayloadCID: c, PayloadSize: n, StoreID: i}\<close>: a new object,
  the other fields zero; the address and the state that holds the object.
\<close>

definition new_ref :: "string \<Rightarrow> int64 \<Rightarrow> uint64 \<Rightarrow> Index \<Rightarrow> nat \<times> Index" where
  "new_ref c n i s =
     (next_ref s,
      s\<lparr>heap := (heap s)(next_ref s := zeroRef\<lparr>PayloadCID := c, PayloadSize := n, StoreID := i\<rparr>),
        next_ref := Suc (next_ref s)\<rparr>)"

section \<open>The interest index\<close>

definition newListEntry :: "int64 \<Rightarrow> listEntry" where
  "newListEntry f = \<lparr>entries_l = [], freq = f\<rparr>"

definition PushFront_f :: "listEntry \<Rightarrow> Index \<Rightarrow> nat option \<times> Index" where
  "PushFront_f le s =
     (Some (next_f s),
      s\<lparr>freqs := next_f s # freqs s, nodes_f := (nodes_f s)(next_f s := le),
        next_f := Suc (next_f s)\<rparr>)"

definition PushBack_f :: "listEntry \<Rightarrow> Index \<Rightarrow> nat option \<times> Index" where
  "PushBack_f le s =
     (Some (next_f s),
      s\<lparr>freqs := freqs s @ [next_f s], nodes_f := (nodes_f s)(next_f s := le),
        next_f := Suc (next_f s)\<rparr>)"

definition InsertBefore_f :: "listEntry \<Rightarrow> nat \<Rightarrow> Index \<Rightarrow> nat option \<times> Index" where
  "InsertBefore_f le mark s =
     (if mark \<in> set (freqs s)
      then (Some (next_f s),
            s\<lparr>freqs := insert_before (next_f s) mark (freqs s),
              nodes_f := (nodes_f s)(next_f s := le), next_f := Suc (next_f s)\<rparr>)
      else (None, s))"

definition remFreqEntry :: "nat \<Rightarrow> nat \<Rightarrow> Index \<Rightarrow> Index" where
  "remFreqEntry place entry s =
     (let b = nodes_f s place;
          b' = b\<lparr>entries_l := removeAll entry (entries_l b)\<rparr>;
          s' = s\<lparr>nodes_f := (nodes_f s)(place := b')\<rparr>
      in if entries_l b' = [] then s'\<lparr>freqs := Remove place (freqs s')\<rparr> else s')"

definition set_bucketNode :: "nat \<Rightarrow> element option \<Rightarrow> Index \<Rightarrow> Index" where
  "set_bucketNode p n s = s\<lparr>heap := (heap s)(p := (heap s p)\<lparr>bucketNode := n\<rparr>)\<rparr>"

text \<open>
  The two placement loops of \<open>LoadInterest\<close> have the same body: over the elements
  \<open>l\<close> still to visit, put the record \<open>p\<close> in the bucket of frequency \<open>f\<close>, or in a
  new bucket before the first one of a higher frequency, or in a new bucket at the
  back when the loop runs out.
\<close>

fun place_walk :: "nat \<Rightarrow> int64 \<Rightarrow> nat list \<Rightarrow> Index \<Rightarrow> Index" where
  "place_walk p f [] s =
     (case PushBack_f ((newListEntry f)\<lparr>entries_l := [p]\<rparr>) s of
        (n, s1) \<Rightarrow> set_bucketNode p (map_option FreqsElem n) s1)"
| "place_walk p f (np # l) s =
     (let le = nodes_f s np
      in if freq le = f
         then set_bucketNode p (Some (FreqsElem np))
                (s\<lparr>nodes_f := (nodes_f s)(np := le\<lparr>entries_l := put_entry p (entries_l le)\<rparr>)\<rparr>)
         else if word_sless f (freq le)
         then (case InsertBefore_f ((newListEntry f)\<lparr>entries_l := [p]\<rparr>) np s of
                 (n, s1) \<Rightarrow> set_bucketNode p (map_option FreqsElem n) s1)
         else place_walk p f l s)"

text \<open>
  The elements a loop \<open>for np := e; np != nil; np = np.Next()\<close> visits: \<open>e\<close> and
  what follows it in the list, or \<open>e\<close> alone when it is not in the list.
\<close>

definition from_elem :: "nat list \<Rightarrow> nat \<Rightarrow> nat list" where
  "from_elem l e = (if e \<in> set l then dropWhile (\<lambda>x. x \<noteq> e) l else [e])"

text \<open>
  The callback that \<open>LoadInterest\<close> gives to \<open>root.ForEach\<close>, for one key and its
  value (\<open>None\<close>: the value does not unmarshal). On the branch of a key that is
  held it returns with \<open>idx.mu\<close> locked. The decoded record \<open>v\<close> has no
  back-pointer; it gets an address only where it is kept.
\<close>

definition load_entry :: "string \<times> DataRef option \<Rightarrow> Index \<Rightarrow> error option outcome" where
  "load_entry kv s =
     (case kv of (k, val) \<Rightarrow>
      if mu s then Blocked
      else if map_of (Refs s) k \<noteq> None then Return None (s\<lparr>mu := True\<rparr>)
      else
        (case val of
           None \<Rightarrow> Return (Some ErrUnmarshal) s
         | Some v \<Rightarrow>
           (case map_of (interest s) k of
              Some p \<Rightarrow>
                (let ref = heap s p;
                     nextFreq = Freq ref + Freq v
                 in if nextFreq = Freq ref then Return None s
                    else
                      (case bucketNode ref of
                         Some (FreqsElem currentPlace) \<Rightarrow>
                           (let s1 = s\<lparr>heap := (heap s)(p := ref\<lparr>Freq := nextFreq\<rparr>)\<rparr>;
                                s2 = place_walk p nextFreq (from_elem (freqs s1) currentPlace) s1
                            in Return None (remFreqEntry currentPlace p s2))
                       | _ \<Rightarrow> Panic))
            | None \<Rightarrow>
                (let p = next_ref s;
                     s1 = s\<lparr>heap := (heap s)(p := marshal v), next_ref := Suc p,
                            interest := AList.update k p (interest s)\<rparr>
                 in if freqs s1 = []
                    then (case PushFront_f ((newListEntry (Freq v))\<lparr>entries_l := [p]\<rparr>) s1 of
                            (n, s2) \<Rightarrow> Return None (set_bucketNode p (map_option FreqsElem n) s2))
                    else Return None (place_walk p (Freq v) (freqs s1) s1)))))"

text \<open>\<open>root.ForEach\<close> stops at the first error the callback returns.\<close>

fun for_each :: "(string \<times> DataRef option) list \<Rightarrow> Index \<Rightarrow> error option outcome" where
  "for_each [] s = Return None s"
| "for_each (kv # kvs) s =
     (case load_entry kv s of
        Return None s' \<Rightarrow> for_each kvs s'
      | r \<Rightarrow> r)"

text \<open>
  \<open>LoadInterest\<close>; the argument is what \<open>LoadRoot\<close> gives: \<open>None\<close> for an error,
  or the keys and values of the remote HAMT in the order \<open>ForEach\<close> visits them.
\<close>

definition LoadInterest :: "(string \<times> DataRef option) list option \<Rightarrow> Index \<Rightarrow> error option outcome" where
  "LoadInterest r s =
     (case r of
        None \<Rightarrow> Return (Some ErrLoadRoot) s
      | Some kvs \<Rightarrow> for_each kvs s)"

text \<open>The first branch of \<open>Interesting\<close>: fill the tank from the back.\<close>

fun fill_entries :: "uint64 \<Rightarrow> nat list \<Rightarrow> nat list \<times> uint64 \<Rightarrow> Index \<Rightarrow> bool \<times> nat list \<times> uint64" where
  "fill_entries av [] (out, added) s = (False, out, added)"
| "fill_entries av (k # ks) (out, added) s =
     (let out' = put_entry k out;
          added' = added + PayloadSize (heap s k)
      in if av \<le> added' then (True, out', added')
         else fill_entries av ks (out', added') s)"

fun fill_walk :: "env \<Rightarrow> uint64 \<Rightarrow> nat list \<Rightarrow> nat list \<times> uint64 \<Rightarrow> Index \<Rightarrow> nat list" where
  "fill_walk env av [] (out, added) s = out"
| "fill_walk env av (e # l) (out, added) s =
     (case fill_entries av (iter env (entries_l (nodes_f s e))) (out, added) s of
        (True, out', added') \<Rightarrow> out'
      | (False, out', added') \<Rightarrow> fill_walk env av l (out', added') s)"

text \<open>The second branch: the loop over the entries of the front bucket.\<close>

fun scan_front :: "env \<Rightarrow> listEntry \<Rightarrow> nat list \<Rightarrow> Index \<Rightarrow> nat list option" where
  "scan_front env entry [] s = None"
| "scan_front env entry (ref # refs) s =
     (if word_sless (Freq (heap s ref)) (freq entry)
      then (case iter env (entries_l entry) of
              k # _ \<Rightarrow> Some [k]
            | [] \<Rightarrow> scan_front env entry refs s)
      else scan_front env entry refs s)"

definition Interesting :: "env \<Rightarrow> Index \<Rightarrow> (nat list option \<times> error option) outcome" where
  "Interesting env s =
     (case Available s of
        Return av s' \<Rightarrow>
          if 0 < av then Return (Some (fill_walk env av (rev (freqs s')) ([], 0) s'), None) s'
          else
            (case Back (freqs s') of
               None \<Rightarrow> Return (None, Some ErrNothingInteresting) s'
             | Some e \<Rightarrow>
               (case Front (blist s') of
                  None \<Rightarrow> Panic
                | Some front \<Rightarrow>
                  (case scan_front env (nodes_f s' e) (iter env (entries (nodes_b s' front))) s' of
                     Some out \<Rightarrow> Return (Some out, None) s'
                   | None \<Rightarrow> Return (None, Some ErrNothingInteresting) s')))
      | Panic \<Rightarrow> Panic
      | Blocked \<Rightarrow> Blocked)"

definition InterestLen :: "Index \<Rightarrow> nat" where
  "InterestLen s = length (interest s)"

definition DropInterest :: "string \<Rightarrow> Index \<Rightarrow> error option outcome" where
  "DropInterest k s =
     (case map_of (interest s) k of
        None \<Rightarrow> Return (Some ErrInterestRefNotFound) s
      | Some p \<Rightarrow>
        (let s1 = s\<lparr>interest := AList.delete k (interest s)\<rparr>
         in case bucketNode (heap s1 p) of
              Some (FreqsElem place) \<Rightarrow> Return None (remFreqEntry place p s1)
            | _ \<Rightarrow> Panic))"

section \<open>Runs\<close>

text \<open>
  An environment in which nothing fails and every \<open>range\<close> visits the entries in
  the order they were inserted, and one in which it visits them in the opposite
  order.
\<close>

definition env_ok :: env where
  "env_ok = \<lparr>iter = (\<lambda>es. es), ms_delete_fails = (\<lambda>_. False), hamt_fails = False,
             flush_res = FlushOk\<rparr>"

definition env_rev :: env where
  "env_rev = \<lparr>iter = rev, ms_delete_fails = (\<lambda>_. False), hamt_fails = False,
              flush_res = FlushOk\<rparr>"

text \<open>One call after another: the next call runs on the state the last one returned.\<close>

definition start :: "(Index \<Rightarrow> Index option) list \<Rightarrow> unit outcome" where
  "start opts = (case NewIndex opts of None \<Rightarrow> Panic | Some s \<Rightarrow> Return () s)"

definition then_do :: "'a outcome \<Rightarrow> (Index \<Rightarrow> 'b outcome) \<Rightarrow> 'b outcome" where
  "then_do r f = (case r of Return _ s \<Rightarrow> f s | Panic \<Rightarrow> Panic | Blocked \<Rightarrow> Blocked)"

definition state_of :: "'a outcome \<Rightarrow> Index option" where
  "state_of r = (case r of Return _ s \<Rightarrow> Some s | _ \<Rightarrow> None)"

definition value_of :: "'a outcome \<Rightarrow> 'a option" where
  "value_of r = (case r of Return v _ \<Rightarrow> Some v | _ \<Rightarrow> None)"

text \<open>\<open>idx.SetRef(&DataRef{PayloadCID: c, PayloadSize: n, StoreID: i})\<close>.\<close>

definition set_new :: "env \<Rightarrow> string \<Rightarrow> int64 \<Rightarrow> uint64 \<Rightarrow> Index \<Rightarrow> error option outcome" where
  "set_new env c n i s = (case new_ref c n i s of (p, s') \<Rightarrow> SetRef env p s')"

text \<open>A remote record as \<open>ForEach\<close> hands it over: key, and the value that decodes.\<close>

definition remote :: "string \<Rightarrow> int64 \<Rightarrow> int64 \<Rightarrow> string \<times> DataRef option" where
  "remote c n f = (c, Some (zeroRef\<lparr>PayloadCID := c, PayloadSize := n, Freq := f\<rparr>))"

text \<open>What is observed of a state.\<close>

definition held_cids :: "Index \<Rightarrow> string list" where
  "held_cids s = map fst (Refs s)"

definition interest_cids :: "Index \<Rightarrow> string list" where
  "interest_cids s = map fst (interest s)"

definition held_bytes :: "Index \<Rightarrow> uint64" where
  "held_bytes s = sum_list (map (\<lambda>kp. PayloadSize (heap s (snd kp))) (Refs s))"

definition interest_freq :: "Index \<Rightarrow> string \<Rightarrow> int64 option" where
  "interest_freq s k = map_option (\<lambda>p. Freq (heap s p)) (map_of (interest s) k)"

definition persisted_freq :: "Index \<Rightarrow> string \<Rightarrow> int64 option" where
  "persisted_freq s k =
     (case ds_idx s of None \<Rightarrow> None | Some r \<Rightarrow> map_option Freq (map_of r k))"

text \<open>The records \<open>ListRefs\<close> returns, each as its content id and frequency.\<close>

definition listed :: "env \<Rightarrow> Index \<Rightarrow> (string \<times> int64) option list option" where
  "listed env s =
     (case ListRefs env s of
        Return (refs, e) s' \<Rightarrow>
          Some (map (map_option (\<lambda>p. (PayloadCID (heap s' p), Freq (heap s' p)))) refs)
      | _ \<Rightarrow> None)"

text \<open>\<open>GetRef\<close> of one key again and again, as long as it returns no error.\<close>

fun get_many :: "env list \<Rightarrow> string \<Rightarrow> Index \<Rightarrow> Index option" where
  "get_many [] k s = Some s"
| "get_many (env # envs) k s =
     (case GetRef env k s of
        Return (Some p, None) s' \<Rightarrow> get_many envs k s'
      | _ \<Rightarrow> None)"

subsection \<open>The scenarios of the specification\<close>

definition scenario_S1 :: "error option outcome" where
  "scenario_S1 = then_do (start []) (set_new env_ok ''A'' 100 1)"



definition scenario_S3_rev :: "error option outcome" where
  "scenario_S3_rev =
     then_do (then_do (then_do (start [WithBounds 250 150])
       (set_new env_rev ''A'' 100 1)) (set_new env_rev ''B'' 100 2)) (set_new env_rev ''C'' 100 3)"

definition scenario_S4 :: "error option outcome" where
  "scenario_S4 = then_do scenario_S1 (DropRef env_ok ''A'')"

definition scenario_two_held :: "error option outcome" where
  "scenario_two_held =
     then_do (then_do (start []) (set_new env_ok ''A'' 100 1)) (set_new env_ok ''B'' 100 2)"

definition scenario_at_lower_bound :: "error option outcome" where
  "scenario_at_lower_bound = then_do (start [WithBounds 250 150]) (set_new env_ok ''A'' 150 1)"

definition scenario_drop_one :: "error option outcome" where
  "scenario_drop_one =
     then_do (then_do (then_do (start [WithBounds 250 150])
       (set_new env_ok ''A'' 100 1)) (set_new env_ok ''B'' 50 2)) (DropRef env_ok ''A'')"

definition scenario_interest_then_set :: "error option outcome" where
  "scenario_interest_then_set =
     then_do (then_do (start []) (LoadInterest (Some [remote ''A'' 100 3])))
       (set_new env_ok ''A'' 100 1)"

definition scenario_interest_only :: "error option outcome" where
  "scenario_interest_only = then_do (start []) (LoadInterest (Some [remote ''A'' 100 3]))"

definition scenario_S5 :: "error option outcome" where
  "scenario_S5 =
     then_do (then_do (start [WithBounds 250 150])
       (LoadInterest (Some [remote ''A'' 100 3, remote ''B'' 100 1])))
       (LoadInterest (Some [remote ''A'' 100 3, remote ''B'' 100 1]))"

definition scenario_load_held_last :: "error option outcome" where
  "scenario_load_held_last =
     then_do scenario_S1 (LoadInterest (Some [remote ''B'' 100 1, remote ''A'' 100 3]))"

definition scenario_load_held_first :: "error option outcome" where
  "scenario_load_held_first =
     then_do scenario_S1 (LoadInterest (Some [remote ''A'' 100 3, remote ''B'' 100 1]))"

text \<open>
  Two buckets before an eviction: A and B are each read once after being set, so that
  A alone is in the front bucket when C arrives.
\<close>

definition scenario_walk_stops :: "error option outcome" where
  "scenario_walk_stops =
     then_do (then_do (then_do (then_do (then_do (start [WithBounds 250 150])
       (set_new env_ok ''A'' 100 1)) (GetRef env_ok ''A'')) (set_new env_ok ''B'' 100 2))
       (GetRef env_ok ''B'')) (set_new env_ok ''C'' 100 3)"

definition scenario_one_large :: "error option outcome" where
  "scenario_one_large = then_do (start [WithBounds 250 150]) (set_new env_ok ''A'' 300 1)"

text \<open>Two records with one content id.\<close>

definition scenario_same_key_twice :: "error option outcome" where
  "scenario_same_key_twice =
     then_do (then_do (start []) (set_new env_ok ''A'' 100 1)) (set_new env_ok ''A'' 100 2)"

text \<open>An eviction in which the deletion of the sub-store of A fails.\<close>

definition env_store_1_fails :: env where
  "env_store_1_fails = \<lparr>iter = (\<lambda>es. es), ms_delete_fails = (\<lambda>i. i = 1), hamt_fails = False,
             flush_res = FlushOk\<rparr>"

definition scenario_delete_fails :: "error option outcome" where
  "scenario_delete_fails =
     then_do (then_do (then_do (start [WithBounds 250 150])
       (set_new env_ok ''A'' 100 1)) (set_new env_ok ''B'' 100 2))
       (set_new env_store_1_fails ''C'' 100 3)"

section \<open>Auxiliary notions of the proofs\<close>

text \<open>What eviction and \<open>increment\<close> leave alone.\<close>

definition same_rest :: "Index \<Rightarrow> Index \<Rightarrow> bool" where
  "same_rest s s' \<longleftrightarrow>
     root s' = root s \<and> mu s' = mu s \<and> ds_idx s' = ds_idx s \<and> rootCID s' = rootCID s \<and>
     ub s' = ub s \<and> lb s' = lb s \<and> interest s' = interest s \<and> freqs s' = freqs s \<and>
     nodes_f s' = nodes_f s \<and> next_f s' = next_f s \<and> next_ref s' = next_ref s"


text \<open>
  \<open>counted k p n\<close>: the key \<open>k\<close> is held by the record at \<open>p\<close> or by none, that
  record is linked, its frequency is \<open>n\<close>, and the HAMT, in memory and as flushed,
  has the record as it is.
\<close>

definition counted :: "string \<Rightarrow> nat \<Rightarrow> nat \<Rightarrow> Index \<Rightarrow> bool" where
  "counted k p n s \<longleftrightarrow>
     (map_of (Refs s) k = None \<or> map_of (Refs s) k = Some p) \<and>
     PayloadCID (heap s p) = k \<and> bucketNode (heap s p) \<noteq> None \<and>
     Freq (heap s p) = of_nat n \<and>
     map_of (root s) k = Some (marshal (heap s p)) \<and> ds_idx s = Some (root s)"



text \<open>
  The bytes, the content ids and the store ids of the records at the addresses \<open>vs\<close>;
  \<open>walk_from env s l\<close> is the front-to-back walk over the elements \<open>l\<close>, each bucket
  in the order its \<open>range\<close> visits it (\<open>walk_b env s\<close> is the walk over the whole
  list).
\<close>

definition bytes :: "Index \<Rightarrow> nat list \<Rightarrow> uint64" where
  "bytes s vs = sum_list (map (\<lambda>q. PayloadSize (heap s q)) vs)"

definition cids :: "Index \<Rightarrow> nat list \<Rightarrow> string set" where
  "cids s vs = (\<lambda>q. PayloadCID (heap s q)) ` set vs"

definition stores :: "Index \<Rightarrow> nat list \<Rightarrow> uint64 list" where
  "stores s vs = map (\<lambda>q. StoreID (heap s q)) vs"

definition walk_from :: "env \<Rightarrow> Index \<Rightarrow> nat list \<Rightarrow> nat list" where
  "walk_from env s l = concat (map (\<lambda>e. iter env (entries (nodes_b s e))) l)"

text \<open>
  \<open>evicted vs s s'\<close>: from \<open>s\<close> to \<open>s'\<close> the records \<open>vs\<close> have been evicted, in this
  order: their keys are gone from the held map, their bytes from the accumulated
  size, their sub-stores are deleted, and no record has changed.
\<close>

definition evicted :: "nat list \<Rightarrow> Index \<Rightarrow> Index \<Rightarrow> bool" where
  "evicted vs s s' \<longleftrightarrow>
     heap s' = heap s \<and>
     size_idx s' = size_idx s - bytes s vs \<and>
     (\<forall>k. map_of (Refs s') k = (if k \<in> cids s vs then None else map_of (Refs s) k)) \<and>
     ms_deleted s' = rev (stores s vs) @ ms_deleted s"

subsection \<open>The shape of the held index\<close>

text \<open>
  \<open>linked\<close>: no element is linked twice, every linked element has been allocated,
  and no linked bucket is empty or lists an entry twice.
\<close>

definition linked :: "Index \<Rightarrow> bool" where
  "linked s \<longleftrightarrow>
     distinct (blist s) \<and>
     (\<forall>e\<in>set (blist s). e < next_b s \<and> entries (nodes_b s e) \<noteq> [] \<and>
        distinct (entries (nodes_b s e)))"

text \<open>
  \<open>held_ok X\<close>: the held map and the buckets agree. Every held record lies at an
  allocated address under its own content id and, unless its key is in \<open>X\<close>, is an
  entry of a linked bucket; every entry of a linked bucket is the held record of its
  content id and points back to that bucket. The keys in \<open>X\<close> are held by records that
  are not linked yet (\<open>SetRef\<close> between \<open>idx.Refs[k] = ref\<close> and \<open>increment\<close>).
\<close>

definition held_ok :: "string set \<Rightarrow> Index \<Rightarrow> bool" where
  "held_ok X s \<longleftrightarrow>
     distinct (map fst (Refs s)) \<and>
     (\<forall>k p. map_of (Refs s) k = Some p \<longrightarrow> PayloadCID (heap s p) = k \<and> p < next_ref s) \<and>
     (\<forall>k p. map_of (Refs s) k = Some p \<longrightarrow> k \<notin> X \<longrightarrow>
        (\<exists>e\<in>set (blist s). p \<in> set (entries (nodes_b s e)))) \<and>
     (\<forall>e\<in>set (blist s). \<forall>p\<in>set (entries (nodes_b s e)).
        map_of (Refs s) (PayloadCID (heap s p)) = Some p \<and>
        bucketNode (heap s p) = Some (BlistElem e) \<and> PayloadCID (heap s p) \<notin> X) \<and>
     (\<forall>k\<in>X. \<exists>p. map_of (Refs s) k = Some p \<and> bucketNode (heap s p) = None)"

text \<open>
  \<open>lfu g\<close>: the bucket ids, read as signed numbers, ascend strictly along the list
  and lie between 1 and \<open>1 + g\<close>, and the id of a bucket is the frequency of each of
  its entries plus one. This is the state after insertions of new records followed by
  \<open>g\<close> reads.
\<close>

definition lfu :: "nat \<Rightarrow> Index \<Rightarrow> bool" where
  "lfu g s \<longleftrightarrow>
     sorted_wrt (\<lambda>a b. sint (id_b (nodes_b s a)) < sint (id_b (nodes_b s b))) (blist s) \<and>
     (\<forall>e\<in>set (blist s). 1 \<le> sint (id_b (nodes_b s e)) \<and> sint (id_b (nodes_b s e)) \<le> 1 + int g \<and>
        (\<forall>p\<in>set (entries (nodes_b s e)). Freq (heap s p) + 1 = id_b (nodes_b s e)))"

definition shaped :: "string set \<Rightarrow> nat \<Rightarrow> Index \<Rightarrow> bool" where
  "shaped X g s \<longleftrightarrow> \<not> mu s \<and> linked s \<and> held_ok X s \<and> lfu g s"

text \<open>
  A sequence of \<open>SetRef\<close> of new records, then a sequence of \<open>GetRef\<close>; a call that
  returns an error does not stop the sequence, a call that does not return does.
\<close>

fun run_sets :: "(env \<times> string \<times> int64 \<times> uint64) list \<Rightarrow> Index \<Rightarrow> Index option" where
  "run_sets [] s = Some s"
| "run_sets ((env, c, n, i) # xs) s =
     (case set_new env c n i s of
        Return e s' \<Rightarrow> run_sets xs s'
      | _ \<Rightarrow> None)"

fun run_gets :: "(env \<times> string) list \<Rightarrow> Index \<Rightarrow> Index option" where
  "run_gets [] s = Some s"
| "run_gets ((env, k) # xs) s =
     (case GetRef env k s of
        Return r s' \<Rightarrow> run_gets xs s'
      | _ \<Rightarrow> None)"

definition reliable :: "env \<Rightarrow> bool" where
  "reliable env \<longleftrightarrow> valid_iter (iter env) \<and> (\<forall>i. \<not> ms_delete_fails env i)"

text \<open>\<open>linked\<close>, but the bucket of the element \<open>n\<close> may still be empty.\<close>

definition linked_but :: "nat \<Rightarrow> Index \<Rightarrow> bool" where
  "linked_but n s \<longleftrightarrow>
     distinct (blist s) \<and>
     (\<forall>e\<in>set (blist s). e < next_b s \<and> (e \<noteq> n \<longrightarrow> entries (nodes_b s e) \<noteq> []) \<and>
        distinct (entries (nodes_b s e)))"

text \<open>
  The bytes of the records \<open>vs\<close> as a natural number (no wrap-around), and the
  walk over the front bucket alone, in the order its \<open>range\<close> visits it.
\<close>

definition nbytes :: "Index \<Rightarrow> nat list \<Rightarrow> nat" where
  "nbytes s vs = sum_list (map (\<lambda>q. unat (PayloadSize (heap s q))) vs)"

definition front_walk :: "env \<Rightarrow> Index \<Rightarrow> nat list" where
  "front_walk env s =
     (case blist s of [] \<Rightarrow> [] | f # _ \<Rightarrow> iter env (entries (nodes_b s f)))"

section \<open>Evaluation\<close>

lemmas model_defs =
  start_def then_do_def state_of_def value_of_def set_new_def remote_def new_ref_def
  NewIndex_def WithBounds_def emptyIndex_def zeroRef_def env_ok_def env_rev_def
  held_cids_def interest_cids_def held_bytes_def interest_freq_def persisted_freq_def listed_def
  SetRef_def admit_def set_root_def GetRef_def DropRef_def PeekRef_def ListRefs_def Len_def walk_b_def Available_def
  Flush_def marshal_def
  increment_def target_new_def target_up_def needs_bucket_def place_ref_def
  Back_def Front_def Remove_def PushFront_b_def InsertAfter_b_def newBucket_def put_entry_def
  remBlistEntry_def evict_def unhold_def reclaim_def
  LoadInterest_def load_entry_def newListEntry_def PushFront_f_def PushBack_f_def
  InsertBefore_f_def remFreqEntry_def set_bucketNode_def from_elem_def
  Interesting_def DropInterest_def InterestLen_def Let_def

lemma eval_S1:
  "value_of scenario_S1 = Some None \<and>
   value_of (then_do scenario_S1 Len) = Some 1 \<and>
   listed env_ok (the (state_of scenario_S1)) = Some [Some (''A'', 0)] \<and>
   value_of (then_do scenario_S1 Available) = Some 18446744073709551516"
  by (simp add: scenario_S1_def model_defs)

lemma eval_S3_rev:
  "value_of scenario_S3_rev = Some None \<and>
   map_option held_cids (state_of scenario_S3_rev) = Some [''C''] \<and>
   map_option size_idx (state_of scenario_S3_rev) = Some 100"
  by (simp add: scenario_S3_rev_def model_defs)

lemma eval_S5:
  "value_of scenario_S5 = Some None \<and>
   map_option (\<lambda>s. interest_freq s ''A'') (state_of scenario_S5) = Some (Some 6) \<and>
   map_option (\<lambda>s. interest_freq s ''B'') (state_of scenario_S5) = Some (Some 2) \<and>
   value_of (then_do scenario_S5 (Interesting env_ok)) = Some (Some [0, 1], None)"
  by (simp add: scenario_S5_def model_defs word_sless_alt)

text \<open>
  The walk of \<open>evict\<close> ends after the first bucket it empties: \<open>remBlistEntry\<close> has
  removed \<open>place\<close> from the list, so that \<open>place.Next()\<close> is nil. With bounds
  (250, 150), A set and read once, B set and read once, the front bucket holds A alone;
  \<open>SetRef\<close> of C runs \<open>evict(150)\<close>, which evicts A (100 bytes) and stops. \<open>SetRef\<close>
  returns with B and C held and a size of 200, above the lower bound.
\<close>

lemma eval_walk_stops:
  "value_of scenario_walk_stops = Some None \<and>
   map_option held_cids (state_of scenario_walk_stops) = Some [''B'', ''C''] \<and>
   map_option size_idx (state_of scenario_walk_stops) = Some 200 \<and>
   map_option ms_deleted (state_of scenario_walk_stops) = Some [1]"
  by (simp add: scenario_walk_stops_def model_defs)

text \<open>
  Eviction runs before the new record is linked, so the new record is never evicted:
  one record of 300 bytes in an index with bounds (250, 150) leaves a size of 300.
\<close>

lemma eval_one_large:
  "value_of scenario_one_large = Some None \<and>
   map_option held_cids (state_of scenario_one_large) = Some [''A''] \<and>
   map_option size_idx (state_of scenario_one_large) = Some 300"
  by (simp add: scenario_one_large_def model_defs)

text \<open>
  \<open>ListRefs\<close> allocates one slot per key of the held map and writes one slot per entry
  of a bucket. Two records set under one content id are two entries and one key; a
  record whose sub-store could not be deleted in an eviction is an entry and no key. In
  both cases the write goes out of range.
\<close>

lemma eval_same_key_twice:
  "value_of scenario_same_key_twice = Some None \<and>
   then_do scenario_same_key_twice (ListRefs env_ok) = Panic"
  by (simp add: scenario_same_key_twice_def model_defs)

lemma eval_delete_fails:
  "value_of scenario_delete_fails = Some None \<and>
   map_option held_cids (state_of scenario_delete_fails) = Some [''C''] \<and>
   then_do scenario_delete_fails (ListRefs env_ok) = Panic"
  by (simp add: scenario_delete_fails_def env_store_1_fails_def model_defs)


text \<open>
  Claim C2 fails on the order within a tie: after \<open>SetRef\<close> of A and then of B, with no
  reads, both records have frequency 0 and are entries of one bucket, a Go map. Under
  an iteration of that map that visits B first, \<open>ListRefs\<close> returns B before A.
\<close>

theorem C2_counterexample:
  "value_of scenario_two_held = Some None \<and>
   map_option (listed env_rev) (state_of scenario_two_held)
     = Some (Some [Some (''B'', 0), Some (''A'', 0)])"
  by (simp add: scenario_two_held_def model_defs)

text \<open>
  Claim C4 fails where \<open>U - size\<close> equals \<open>U - L\<close>: with bounds (250, 150) and a size
  of 150, \<open>U - size = 100\<close> does not strictly exceed \<open>U - L = 100\<close>, yet \<open>Available\<close>
  returns 100 and not 0 (the test in the code is \<open>ub - size < margin\<close>).
\<close>

theorem C4_counterexample:
  "map_option ub (state_of scenario_at_lower_bound) = Some 250 \<and>
   map_option lb (state_of scenario_at_lower_bound) = Some 150 \<and>
   map_option size_idx (state_of scenario_at_lower_bound) = Some 150 \<and>
   value_of (then_do scenario_at_lower_bound Available) = Some 100"
  by (simp add: scenario_at_lower_bound_def model_defs)

text \<open>
  Claim C6 fails after \<open>LoadInterest\<close> of a root that holds A followed by \<open>SetRef\<close> of A:
  the content id A is a key of the held map and of the interest map at once.
  \<open>SetRef\<close> never reads or writes the interest index.
\<close>

theorem C6_counterexample:
  "value_of scenario_interest_then_set = Some None \<and>
   map_option held_cids (state_of scenario_interest_then_set) = Some [''A''] \<and>
   map_option interest_cids (state_of scenario_interest_then_set) = Some [''A'']"
  by (simp add: scenario_interest_then_set_def model_defs)

section \<open>Frames: what the steps leave alone\<close>

lemma same_rest_refl [simp]: "same_rest s s"
  by (simp add: same_rest_def)

lemma same_rest_trans: "same_rest s s' \<Longrightarrow> same_rest s' s'' \<Longrightarrow> same_rest s s''"
  by (simp add: same_rest_def)

lemma remBlistEntry_heap [simp]: "heap (remBlistEntry c p s) = heap s"
  by (simp add: remBlistEntry_def Let_def)

lemma remBlistEntry_Refs [simp]: "Refs (remBlistEntry c p s) = Refs s"
  by (simp add: remBlistEntry_def Let_def)

lemma remBlistEntry_size [simp]: "size_idx (remBlistEntry c p s) = size_idx s"
  by (simp add: remBlistEntry_def Let_def)

lemma remBlistEntry_next_b [simp]: "next_b (remBlistEntry c p s) = next_b s"
  by (simp add: remBlistEntry_def Let_def)

lemma remBlistEntry_same_rest [simp]: "same_rest s (remBlistEntry c p s)"
  by (simp add: same_rest_def remBlistEntry_def Let_def)

lemma unhold_simps [simp]:
  "heap (unhold e s) = heap s" "blist (unhold e s) = blist s" "nodes_b (unhold e s) = nodes_b s"
  "size_idx (unhold e s) = size_idx s" "next_b (unhold e s) = next_b s"
  "same_rest s (unhold e s)" "ms_deleted (unhold e s) = ms_deleted s"
  "Refs (unhold e s) = AList.delete (PayloadCID (heap s e)) (Refs s)"
  by (simp_all add: unhold_def same_rest_def)

lemma reclaim_simps [simp]:
  "heap (reclaim c e s) = heap s" "Refs (reclaim c e s) = Refs s"
  "size_idx (reclaim c e s) = size_idx s - PayloadSize (heap s e)"
  "next_b (reclaim c e s) = next_b s" "same_rest s (reclaim c e s)"
  by (simp_all add: reclaim_def Let_def same_rest_def remBlistEntry_def)

text \<open>A property that both steps of the loop body keep holds after the loop.\<close>

lemma evict_entries_keeps:
  assumes "evict_entries env t place es (ev, s) = (fl, ev', s')" and "P s"
    and "\<And>e s. P s \<Longrightarrow> P (unhold e s)" and "\<And>e s. P s \<Longrightarrow> P (reclaim place e s)"
  shows "P s'"
  using assms(1,2)
proof (induction es arbitrary: ev s)
  case Nil
  then show ?case by simp
next
  case (Cons e es)
  show ?case
  proof (cases "ms_delete_fails env (StoreID (heap s e))")
    case True
    with Cons.prems have "evict_entries env t place es (ev, unhold e s) = (fl, ev', s')" by simp
    from Cons.IH [OF this] assms(3) Cons.prems(2) show ?thesis by blast
  next
    case False
    note nf = this
    show ?thesis
    proof (cases "t \<le> ev + PayloadSize (heap s e)")
      case True
      with nf Cons.prems have "s' = reclaim place e (unhold e s)" by simp
      with assms(3,4) Cons.prems(2) show ?thesis by blast
    next
      case False
      with nf Cons.prems have "evict_entries env t place es
          (ev + PayloadSize (heap s e), reclaim place e (unhold e s)) = (fl, ev', s')" by simp
      from Cons.IH [OF this] assms(3,4) Cons.prems(2) show ?thesis by blast
    qed
  qed
qed

lemma evict_walk_keeps:
  assumes "evict_walk env t l (ev, s) = (ev', s')" and "P s"
    and "\<And>e s. P s \<Longrightarrow> P (unhold e s)" and "\<And>c e s. P s \<Longrightarrow> P (reclaim c e s)"
  shows "P s'"
  using assms(1,2)
proof (induction l arbitrary: ev s)
  case Nil
  then show ?case by simp
next
  case (Cons place l)
  obtain fl ev1 s1 where e: "evict_entries env t place (iter env (entries (nodes_b s place))) (ev, s) = (fl, ev1, s1)"
    by (metis prod_cases3)
  have p1: "P s1"
    by (rule evict_entries_keeps [where P = P, OF e Cons.prems(2)]) (use assms(3,4) in blast)+
  show ?case
  proof (cases "fl \<or> place \<notin> set (blist s1)")
    case True
    with Cons.prems(1) e have "s' = s1" by (auto split: if_splits)
    with p1 show ?thesis by simp
  next
    case False
    with Cons.prems(1) e have "evict_walk env t l (ev1, s1) = (ev', s')" by simp
    from Cons.IH [OF this p1] show ?thesis .
  qed
qed

lemma evict_keeps:
  assumes "evict env t s = (ev', s')" and "P s"
    and "\<And>e s. P s \<Longrightarrow> P (unhold e s)" and "\<And>c e s. P s \<Longrightarrow> P (reclaim c e s)"
  shows "P s'"
  using assms(1) unfolding evict_def by (rule evict_walk_keeps [where P = P]) (use assms in blast)+

lemma evict_heap: "heap (snd (evict env t s)) = heap s"
proof -
  obtain ev' s' where e: "evict env t s = (ev', s')" by (cases "evict env t s")
  have "heap s' = heap s"
    by (rule evict_keeps [OF e, where P = "\<lambda>x. heap x = heap s"]) simp_all
  with e show ?thesis by simp
qed

lemma evict_same_rest: "same_rest s (snd (evict env t s))"
proof -
  obtain ev' s' where e: "evict env t s = (ev', s')" by (cases "evict env t s")
  have "same_rest s s'"
    by (rule evict_keeps [OF e, where P = "same_rest s"])
      (auto intro: same_rest_trans [OF _ unhold_simps(6)] same_rest_trans [OF _ reclaim_simps(5)])
  with e show ?thesis by simp
qed

text \<open>Eviction only takes keys away from the held map.\<close>

lemma evict_Refs:
  "map_of (Refs (snd (evict env t s))) k = Some q \<Longrightarrow> map_of (Refs s) k = Some q"
proof -
  obtain ev' s' where e: "evict env t s = (ev', s')" by (cases "evict env t s")
  have "\<forall>q. map_of (Refs s') k = Some q \<longrightarrow> map_of (Refs s) k = Some q"
    by (rule evict_keeps [OF e, where P = "\<lambda>x. \<forall>q. map_of (Refs x) k = Some q \<longrightarrow> map_of (Refs s) k = Some q"])
      (auto simp: delete_conv split: if_splits)
  with e show "map_of (Refs (snd (evict env t s))) k = Some q \<Longrightarrow> map_of (Refs s) k = Some q"
    by simp
qed


lemma place_ref_simps [simp]:
  "Refs (place_ref p m i n s) = Refs s" "size_idx (place_ref p m i n s) = size_idx s"
  "blist (place_ref p m i n s) = blist s" "next_b (place_ref p m i n s) = next_b s"
  "same_rest s (place_ref p m i n s)"
  "q \<noteq> p \<Longrightarrow> heap (place_ref p m i n s) q = heap s q"
  "heap (place_ref p m i n s) p = (heap s p)\<lparr>Freq := (if m then Freq (heap s p) + 1 else Freq (heap s p)),
      BucketID := i, bucketNode := Some (BlistElem n)\<rparr>"
  by (simp_all add: place_ref_def same_rest_def)

lemma PushFront_b_simps [simp]:
  "Refs (snd (PushFront_b b s)) = Refs s" "size_idx (snd (PushFront_b b s)) = size_idx s"
  "heap (snd (PushFront_b b s)) = heap s" "same_rest s (snd (PushFront_b b s))"
  "fst (PushFront_b b s) = Some (next_b s)"
  "blist (snd (PushFront_b b s)) = next_b s # blist s"
  "next_b (snd (PushFront_b b s)) = Suc (next_b s)"
  "nodes_b (snd (PushFront_b b s)) = (nodes_b s)(next_b s := b)"
  by (simp_all add: PushFront_b_def same_rest_def)

lemma InsertAfter_b_simps [simp]:
  "Refs (snd (InsertAfter_b b c s)) = Refs s" "size_idx (snd (InsertAfter_b b c s)) = size_idx s"
  "heap (snd (InsertAfter_b b c s)) = heap s" "same_rest s (snd (InsertAfter_b b c s))"
  by (simp_all add: InsertAfter_b_def same_rest_def)

lemma InsertAfter_b_Some:
  "InsertAfter_b b c s = (Some n, s1) \<Longrightarrow>
     c \<in> set (blist s) \<and> n = next_b s \<and> blist s1 = insert_after (next_b s) c (blist s) \<and>
     nodes_b s1 = (nodes_b s)(next_b s := b) \<and> next_b s1 = Suc (next_b s)"
  by (auto simp: InsertAfter_b_def split: if_splits)

text \<open>The four ways \<open>increment\<close> returns.\<close>

lemma increment_cases:
  assumes "increment p s = Some s'"
  obtains
    (new_first) "bucketNode (heap s p) = None" "blist s = []"
      "s' = place_ref p False 1 (next_b s) (snd (PushFront_b (newBucket 1) s))"
  | (new_join) "bucketNode (heap s p) = None" "blist s \<noteq> []"
      "s' = place_ref p False (id_b (nodes_b s (last (blist s)))) (last (blist s)) s"
  | (up_join) c n where "bucketNode (heap s p) = Some (BlistElem c)" "Next (blist s) c = Some n"
      "id_b (nodes_b s n) = id_b (nodes_b s c) + 1"
      "s' = remBlistEntry c p (place_ref p True (id_b (nodes_b s c) + 1) n s)"
  | (up_new) c where "bucketNode (heap s p) = Some (BlistElem c)" "c \<in> set (blist s)"
      "\<forall>n. Next (blist s) c = Some n \<longrightarrow> id_b (nodes_b s n) \<noteq> id_b (nodes_b s c) + 1"
      "s' = remBlistEntry c p (place_ref p True (id_b (nodes_b s c) + 1) (next_b s)
              (snd (InsertAfter_b (newBucket (id_b (nodes_b s c) + 1)) c s)))"
proof (cases "bucketNode (heap s p)")
  case None
  show ?thesis
  proof (cases "blist s = []")
    case True
    with None assms have "s' = place_ref p False 1 (next_b s) (snd (PushFront_b (newBucket 1) s))"
      by (simp add: increment_def target_new_def Back_def needs_bucket_def PushFront_b_def)
    with None True show ?thesis by (rule new_first)
  next
    case False
    with None assms have "s' = place_ref p False (id_b (nodes_b s (last (blist s)))) (last (blist s)) s"
      by (simp add: increment_def target_new_def Back_def needs_bucket_def)
    with None False show ?thesis by (rule new_join)
  qed
next
  case (Some el)
  with assms obtain c where c: "bucketNode (heap s p) = Some (BlistElem c)"
    by (cases el) (auto simp: increment_def)
  show ?thesis
  proof (cases "needs_bucket (target_up c s) s")
    case True
    with c assms obtain n s1 where ins: "InsertAfter_b (newBucket (id_b (nodes_b s c) + 1)) c s = (Some n, s1)"
      and s': "s' = remBlistEntry c p (place_ref p True (id_b (nodes_b s c) + 1) n s1)"
      by (auto simp: increment_def target_up_def split: prod.splits option.splits)
    from InsertAfter_b_Some [OF ins] ins have "c \<in> set (blist s)" "n = next_b s"
      "s1 = snd (InsertAfter_b (newBucket (id_b (nodes_b s c) + 1)) c s)" by simp_all
    moreover from True have "\<forall>n. Next (blist s) c = Some n \<longrightarrow> id_b (nodes_b s n) \<noteq> id_b (nodes_b s c) + 1"
      by (auto simp: needs_bucket_def target_up_def)
    ultimately show ?thesis using c s' by (auto intro: up_new)
  next
    case False
    then obtain n where n: "Next (blist s) c = Some n" "id_b (nodes_b s n) = id_b (nodes_b s c) + 1"
      by (auto simp: needs_bucket_def target_up_def split: option.splits)
    with False c assms have "s' = remBlistEntry c p (place_ref p True (id_b (nodes_b s c) + 1) n s)"
      by (simp add: increment_def target_up_def)
    with c n show ?thesis by (auto intro: up_join)
  qed
qed

lemma increment_same_rest:
  assumes "increment p s = Some s'"
  shows "same_rest s s' \<and> Refs s' = Refs s \<and> size_idx s' = size_idx s"
  using assms
proof (cases rule: increment_cases)
  case new_first
  then show ?thesis
    by (auto intro: same_rest_trans [OF PushFront_b_simps(4) place_ref_simps(5)])
next
  case new_join
  then show ?thesis by simp
next
  case (up_join c n)
  then show ?thesis
    by (auto intro: same_rest_trans [OF place_ref_simps(5) remBlistEntry_same_rest])
next
  case (up_new c)
  then show ?thesis
    by (auto intro: same_rest_trans [OF same_rest_trans [OF InsertAfter_b_simps(4) place_ref_simps(5)] remBlistEntry_same_rest])
qed

lemma increment_heap_other:
  "increment p s = Some s' \<Longrightarrow> q \<noteq> p \<Longrightarrow> heap s' q = heap s q"
  by (erule increment_cases) simp_all

lemma increment_heap_self:
  assumes "increment p s = Some s'"
  shows "PayloadCID (heap s' p) = PayloadCID (heap s p)"
    "PayloadSize (heap s' p) = PayloadSize (heap s p)"
    "StoreID (heap s' p) = StoreID (heap s p)"
    "Freq (heap s' p) = (if bucketNode (heap s p) = None then Freq (heap s p) else Freq (heap s p) + 1)"
    "\<exists>n. bucketNode (heap s' p) = Some (BlistElem n)"
  using assms by (cases rule: increment_cases; simp)+

lemma Flush_None:
  "Flush env s = (None, s') \<Longrightarrow> s' = s\<lparr>rootCID := Some (root s), ds_idx := Some (root s)\<rparr>"
  by (auto simp: Flush_def split: flush_result.splits)

lemma Flush_frame:
  "Flush env s = (e, s') \<Longrightarrow>
     heap s' = heap s \<and> Refs s' = Refs s \<and> size_idx s' = size_idx s \<and> root s' = root s \<and>
     ms_deleted s' = ms_deleted s \<and> blist s' = blist s \<and> nodes_b s' = nodes_b s \<and>
     mu s' = mu s \<and> interest s' = interest s \<and> ub s' = ub s \<and> lb s' = lb s \<and>
     next_ref s' = next_ref s \<and> next_b s' = next_b s"
  by (auto simp: Flush_def split: flush_result.splits)

lemma admit_heap [simp]: "heap (admit env p s) = heap s"
  by (simp add: admit_def Let_def evict_heap)

lemma admit_Refs:
  "map_of (Refs (admit env p s)) k = Some q \<Longrightarrow>
     ((map_of (Refs s))(PayloadCID (heap s p) \<mapsto> p)) k = Some q"
  by (auto simp: admit_def Let_def update_conv' dest!: evict_Refs split: if_splits)

lemma admit_same_rest: "same_rest s (admit env p s)"
proof -
  have "same_rest s (s\<lparr>Refs := r, size_idx := n\<rparr>)" for r n
    by (simp add: same_rest_def)
  then show ?thesis
    by (auto simp: admit_def Let_def intro: same_rest_trans [OF _ evict_same_rest])
qed

lemma SetRef_counted:
  assumes "Freq (heap s p) = 0" "bucketNode (heap s p) = None" "SetRef env p s = Return None s1"
  shows "counted (PayloadCID (heap s p)) p 0 s1"
proof -
  let ?k = "PayloadCID (heap s p)"
  have r2: "map_of (Refs (admit env p s)) ?k = None \<or> map_of (Refs (admit env p s)) ?k = Some p"
    using admit_Refs [of env p s ?k] by (cases "map_of (Refs (admit env p s)) ?k") auto
  from assms(3) obtain s3 where i: "increment p (admit env p s) = Some s3"
    and fl: "Flush env (set_root ?k p s3) = (None, s1)"
    by (auto simp: SetRef_def split: if_splits option.splits prod.splits)
  note fr = increment_same_rest [OF i, unfolded same_rest_def] increment_heap_self [OF i]
  from Flush_None [OF fl] have s1: "s1 = (set_root ?k p s3)\<lparr>rootCID := Some (root (set_root ?k p s3)),
      ds_idx := Some (root (set_root ?k p s3))\<rparr>" by simp
  show ?thesis
    using r2 fr assms(1,2)
    by (auto simp: counted_def s1 set_root_def update_conv')
qed

lemma GetRef_counted:
  assumes "counted k p n s" "GetRef env k s = Return (Some q, None) s'"
  shows "counted k p (Suc n) s'"
proof -
  from assms(2) have rq: "map_of (Refs s) k = Some q"
    by (auto simp: GetRef_def split: if_splits option.splits prod.splits)
  with assms(1) have q: "q = p" by (auto simp: counted_def)
  from assms(2) rq q obtain s1 where i: "increment p s = Some s1"
    and fl: "Flush env (set_root k p s1) = (None, s')"
    by (auto simp: GetRef_def split: if_splits option.splits prod.splits)
  note fr = increment_same_rest [OF i, unfolded same_rest_def] increment_heap_self [OF i]
  from Flush_None [OF fl] have s': "s' = (set_root k p s1)\<lparr>rootCID := Some (root (set_root k p s1)),
      ds_idx := Some (root (set_root k p s1))\<rparr>" by simp
  show ?thesis
    using assms(1) fr rq q
    by (auto simp: counted_def s' set_root_def update_conv')
qed

lemma get_many_counted:
  "counted k p n s \<Longrightarrow> get_many envs k s = Some s' \<Longrightarrow> counted k p (n + length envs) s'"
proof (induction envs arbitrary: n s)
  case Nil
  then show ?case by simp
next
  case (Cons env envs)
  from Cons.prems(2) obtain q s1 where g: "GetRef env k s = Return (Some q, None) s1"
    and r: "get_many envs k s1 = Some s'"
    by (auto split: outcome.splits option.splits prod.splits)
  from Cons.IH [OF GetRef_counted [OF Cons.prems(1) g] r] show ?case by simp
qed

lemma sint_of_nat_small:
  assumes "n < 2 ^ 63"
  shows "sint (word_of_nat n :: 64 word) = int n"
proof -
  have "int n < int (2 ^ 63)" using assms by (simp only: of_nat_less_iff)
  then have "int n < 2 ^ 63" by simp
  then have "signed_take_bit 63 (int n) = int n"
    by (intro signed_take_bit_int_eq_self) simp_all
  then show ?thesis by (simp add: signed_of_nat)
qed

text \<open>
  Claim C3: a record inserted by \<open>SetRef\<close> with frequency 0 (a new record: no
  back-pointer yet) and then read by \<open>n\<close> calls of \<open>GetRef\<close> on its key that all return
  without error has frequency \<open>n\<close>, in memory and in the HAMT as last flushed. With
  \<open>n = 0\<close> this is the insertion, which contributes 0. The frequency is an \<open>int64\<close>:
  it is \<open>n\<close> as a 64-bit word, and as a signed number for every \<open>n\<close> below \<open>2^63\<close>.
\<close>

theorem C3_frequency_counts_reads:
  assumes "Freq (heap s p) = 0" and "bucketNode (heap s p) = None"
    and "SetRef env p s = Return None s1"
    and "get_many envs (PayloadCID (heap s p)) s1 = Some s2"
  shows "Freq (heap s2 p) = of_nat (length envs) \<and>
         persisted_freq s2 (PayloadCID (heap s p)) = Some (of_nat (length envs)) \<and>
         (length envs < 2 ^ 63 \<longrightarrow> sint (Freq (heap s2 p)) = int (length envs))"
proof -
  from get_many_counted [OF SetRef_counted [OF assms(1,2,3)] assms(4)]
  have c: "counted (PayloadCID (heap s p)) p (length envs) s2" by simp
  then have f: "Freq (heap s2 p) = of_nat (length envs)"
    and "persisted_freq s2 (PayloadCID (heap s p)) = Some (of_nat (length envs))"
    by (auto simp: counted_def persisted_freq_def marshal_def)
  then show ?thesis by (simp add: sint_of_nat_small)
qed

section \<open>The interest index and the held map\<close>

lemma word_sub_less_sub_iff:
  fixes a b c :: "64 word"
  assumes "b \<le> a" "c \<le> a"
  shows "a - c < a - b \<longleftrightarrow> b < c"
  using assms by (auto simp: word_less_nat_alt word_le_nat_alt unat_sub)

text \<open>
  Claim C4 as amended: in a state with \<open>L \<le> U\<close> and \<open>size \<le> U\<close>, \<open>Available\<close> returns
  \<open>U - size\<close> when that is at least \<open>U - L\<close>, that is when \<open>size \<le> L\<close>, and 0 otherwise;
  the subtraction does not wrap there.
\<close>

theorem C4_available_within_bounds:
  assumes "\<not> mu s" and "lb s \<le> ub s" and "size_idx s \<le> ub s"
  shows "Available s = Return (if size_idx s \<le> lb s then ub s - size_idx s else 0) s \<and>
         unat (ub s - size_idx s) = unat (ub s) - unat (size_idx s)"
  using assms word_sub_less_sub_iff [of "lb s" "ub s" "size_idx s"]
  by (auto simp: Available_def Let_def unat_sub)

text \<open>Claim C4 as amended, at bounds (250, 150) and a size of 100.\<close>

theorem C4_witness:
  "Available (emptyIndex\<lparr>ub := 250, lb := 150, size_idx := 100\<rparr>)
     = Return 150 (emptyIndex\<lparr>ub := 250, lb := 150, size_idx := 100\<rparr>)"
  using C4_available_within_bounds [of "emptyIndex\<lparr>ub := 250, lb := 150, size_idx := 100\<rparr>"]
  by (simp add: emptyIndex_def)

text \<open>Interest: what the placement leaves alone.\<close>

lemma set_bucketNode_simps [simp]:
  "Refs (set_bucketNode p n s) = Refs s" "interest (set_bucketNode p n s) = interest s"
  "mu (set_bucketNode p n s) = mu s"
  by (simp_all add: set_bucketNode_def)

lemma place_walk_keys [simp]:
  "Refs (place_walk p f l s) = Refs s \<and> interest (place_walk p f l s) = interest s \<and>
   mu (place_walk p f l s) = mu s"
  by (induction l) (simp_all add: Let_def PushBack_f_def InsertBefore_f_def)

lemma remFreqEntry_keys [simp]:
  "Refs (remFreqEntry c p s) = Refs s" "interest (remFreqEntry c p s) = interest s"
  "mu (remFreqEntry c p s) = mu s"
  by (simp_all add: remFreqEntry_def Let_def)

lemma update_keys_set:
  "fst ` set (AList.update k x al) = insert k (fst ` set al)"
  by (induction al) auto

text \<open>The ways the callback of \<open>LoadInterest\<close> returns.\<close>

lemma load_entry_cases:
  assumes "load_entry (k, v) s = Return e s'"
  obtains
    (held) "\<not> mu s" "map_of (Refs s) k \<noteq> None" "e = None" "s' = s\<lparr>mu := True\<rparr>"
  | (undecoded) "\<not> mu s" "map_of (Refs s) k = None" "v = None" "e = Some ErrUnmarshal" "s' = s"
  | (unchanged) p r where "\<not> mu s" "map_of (Refs s) k = None" "v = Some r"
      "map_of (interest s) k = Some p" "Freq (heap s p) + Freq r = Freq (heap s p)"
      "e = None" "s' = s"
  | (merged) p r c where "\<not> mu s" "map_of (Refs s) k = None" "v = Some r"
      "map_of (interest s) k = Some p" "Freq (heap s p) + Freq r \<noteq> Freq (heap s p)"
      "bucketNode (heap s p) = Some (FreqsElem c)" "e = None"
      "s' = remFreqEntry c p (place_walk p (Freq (heap s p) + Freq r) (from_elem (freqs s) c)
              (s\<lparr>heap := (heap s)(p := (heap s p)\<lparr>Freq := Freq (heap s p) + Freq r\<rparr>)\<rparr>))"
  | (first) r where "\<not> mu s" "map_of (Refs s) k = None" "v = Some r"
      "map_of (interest s) k = None" "freqs s = []" "e = None"
      "s' = set_bucketNode (next_ref s) (Some (FreqsElem (next_f s)))
              (snd (PushFront_f ((newListEntry (Freq r))\<lparr>entries_l := [next_ref s]\<rparr>)
                 (s\<lparr>heap := (heap s)(next_ref s := marshal r), next_ref := Suc (next_ref s),
                    interest := AList.update k (next_ref s) (interest s)\<rparr>)))"
  | (placed) r where "\<not> mu s" "map_of (Refs s) k = None" "v = Some r"
      "map_of (interest s) k = None" "freqs s \<noteq> []" "e = None"
      "s' = place_walk (next_ref s) (Freq r) (freqs s)
              (s\<lparr>heap := (heap s)(next_ref s := marshal r), next_ref := Suc (next_ref s),
                 interest := AList.update k (next_ref s) (interest s)\<rparr>)"
proof -
  from assms have nm: "\<not> mu s" by (auto simp: load_entry_def split: if_splits)
  show ?thesis
  proof (cases "map_of (Refs s) k")
    case (Some q)
    with assms nm have "e = None" "s' = s\<lparr>mu := True\<rparr>" by (simp_all add: load_entry_def)
    with Some nm show ?thesis by (auto intro: held)
  next
    case None
    note nh = this
    show ?thesis
    proof (cases v)
      case None
      with assms nm nh have "e = Some ErrUnmarshal" "s' = s" by (simp_all add: load_entry_def)
      with None nm nh show ?thesis by (auto intro: undecoded)
    next
      case (Some r)
      note v = this
      show ?thesis
      proof (cases "map_of (interest s) k")
        case None
        show ?thesis
        proof (cases "freqs s = []")
          case True
          with assms nm nh v None have "e = None"
            "s' = set_bucketNode (next_ref s) (Some (FreqsElem (next_f s)))
              (snd (PushFront_f ((newListEntry (Freq r))\<lparr>entries_l := [next_ref s]\<rparr>)
                 (s\<lparr>heap := (heap s)(next_ref s := marshal r), next_ref := Suc (next_ref s),
                    interest := AList.update k (next_ref s) (interest s)\<rparr>)))"
            by (simp_all add: load_entry_def Let_def PushFront_f_def)
          with nm nh v None True show ?thesis by (auto intro: first)
        next
          case False
          with assms nm nh v None have "e = None"
            "s' = place_walk (next_ref s) (Freq r) (freqs s)
              (s\<lparr>heap := (heap s)(next_ref s := marshal r), next_ref := Suc (next_ref s),
                 interest := AList.update k (next_ref s) (interest s)\<rparr>)"
            by (simp_all add: load_entry_def Let_def)
          with nm nh v None False show ?thesis by (auto intro: placed)
        qed
      next
        case (Some p)
        note ip = this
        show ?thesis
        proof (cases "Freq (heap s p) + Freq r = Freq (heap s p)")
          case True
          with assms nm nh v ip have "e = None" "s' = s" by (simp_all add: load_entry_def Let_def)
          with nm nh v ip True show ?thesis by (auto intro: unchanged)
        next
          case False
          with assms nm nh v ip obtain c where c: "bucketNode (heap s p) = Some (FreqsElem c)"
            by (auto simp: load_entry_def Let_def split: option.splits element.splits)
          with assms nm nh v ip False have "e = None"
            "s' = remFreqEntry c p (place_walk p (Freq (heap s p) + Freq r) (from_elem (freqs s) c)
              (s\<lparr>heap := (heap s)(p := (heap s p)\<lparr>Freq := Freq (heap s p) + Freq r\<rparr>)\<rparr>))"
            by (simp_all add: load_entry_def Let_def)
          with nm nh v ip False c show ?thesis by (auto intro: merged)
        qed
      qed
    qed
  qed
qed

lemma load_entry_Refs:
  assumes "load_entry (k, v) s = Return e s'"
  shows "Refs s' = Refs s"
  using assms by (cases rule: load_entry_cases) (simp_all add: PushFront_f_def)

lemma load_entry_interest:
  assumes "load_entry (k, v) s = Return e s'"
  shows "set (interest_cids s') \<subseteq> set (interest_cids s) \<union> ({k} - set (held_cids s))"
  using assms
proof (cases rule: load_entry_cases)
  case (first r)
  then have "k \<notin> set (held_cids s)" by (simp add: held_cids_def map_of_eq_None_iff)
  with first show ?thesis
    by (simp add: interest_cids_def PushFront_f_def update_keys_set)
next
  case (placed r)
  then have "k \<notin> set (held_cids s)" by (simp add: held_cids_def map_of_eq_None_iff)
  with placed show ?thesis
    by (auto simp add: interest_cids_def update_keys_set)
qed (simp_all add: interest_cids_def)

lemma for_each_keys:
  "for_each kvs s = Return e s' \<Longrightarrow>
     Refs s' = Refs s \<and>
     set (interest_cids s') \<subseteq> set (interest_cids s) \<union> (fst ` set kvs - set (held_cids s))"
proof (induction kvs arbitrary: s)
  case Nil
  then show ?case by simp
next
  case (Cons kv kvs)
  obtain k v where kv: "kv = (k, v)" by (cases kv)
  show ?case
  proof (cases "load_entry (k, v) s")
    case (Return e1 s1)
    note l1 = load_entry_Refs [OF Return]
    note l2 = load_entry_interest [OF Return]
    show ?thesis
    proof (cases e1)
      case None
      with Return Cons.prems have "for_each kvs s1 = Return e s'" by (simp add: kv)
      from Cons.IH [OF this] have "Refs s' = Refs s1"
        "set (interest_cids s') \<subseteq> set (interest_cids s1) \<union> (fst ` set kvs - set (held_cids s1))"
        by simp_all
      moreover have "held_cids s1 = held_cids s" using l1 by (simp add: held_cids_def)
      ultimately show ?thesis using l1 l2 by (auto simp: kv)
    next
      case (Some err)
      with Return Cons.prems have "s' = s1" by (simp add: kv)
      with l1 l2 show ?thesis by (auto simp: kv)
    qed
  next
    case Panic
    with Cons.prems show ?thesis by (simp add: kv)
  next
    case Blocked
    with Cons.prems show ?thesis by (simp add: kv)
  qed
qed

text \<open>
  Claim C6 as amended: \<open>LoadInterest\<close> leaves the held map as it is and adds to the
  interest map no key that is held, so two maps that are disjoint before it returns
  are disjoint after.
\<close>

theorem C6_load_interest_skips_held:
  assumes "set (held_cids s) \<inter> set (interest_cids s) = {}"
    and "LoadInterest r s = Return e s'"
  shows "held_cids s' = held_cids s \<and> set (held_cids s') \<inter> set (interest_cids s') = {}"
proof (cases r)
  case None
  with assms show ?thesis by (simp add: LoadInterest_def)
next
  case (Some kvs)
  with assms(2) have "for_each kvs s = Return e s'" by (simp add: LoadInterest_def)
  from for_each_keys [OF this] assms(1) show ?thesis
    by (auto simp: held_cids_def)
qed

text \<open>
  Claim C6 as amended, at a concrete run: A is held, the remote root has B and A;
  after \<open>LoadInterest\<close> A is still the only held key and is not of interest.
\<close>

theorem C6_witness:
  "held_cids (the (state_of scenario_load_held_last)) = [''A''] \<and>
   set (held_cids (the (state_of scenario_load_held_last)))
     \<inter> set (interest_cids (the (state_of scenario_load_held_last))) = {}"
proof -
  let ?s = "the (state_of scenario_S1)"
  let ?s' = "the (state_of scenario_load_held_last)"
  have h1: "set (held_cids ?s) \<inter> set (interest_cids ?s) = {}"
    by (simp add: scenario_S1_def model_defs)
  have h2: "LoadInterest (Some [remote ''B'' 100 1, remote ''A'' 100 3]) ?s = Return None ?s'"
    by (simp add: scenario_load_held_last_def scenario_S1_def model_defs)
  have "held_cids ?s = [''A'']"
    by (simp add: scenario_S1_def model_defs)
  with C6_load_interest_skips_held [OF h1 h2] show ?thesis by auto
qed

text \<open>
  No operation of the held index reads or writes the interest index; \<open>SetRef\<close> in
  particular leaves the interest map and its frequency list as they are.
\<close>

lemma Flush_interest:
  "Flush env s = (e, s') \<Longrightarrow>
     interest s' = interest s \<and> freqs s' = freqs s \<and> nodes_f s' = nodes_f s"
  by (auto simp: Flush_def split: flush_result.splits)

lemma SetRef_keeps_interest:
  assumes "SetRef env p s = Return e s'"
  shows "interest s' = interest s \<and> freqs s' = freqs s \<and> nodes_f s' = nodes_f s"
proof -
  from assms obtain s3 where i: "increment p (admit env p s) = Some s3"
    and fl: "s' = s3 \<or> (\<exists>e'. Flush env (set_root (PayloadCID (heap s p)) p s3) = (e', s'))"
    by (auto simp: SetRef_def split: if_splits option.splits prod.splits)
  have a: "same_rest s s3"
    using same_rest_trans [OF admit_same_rest] increment_same_rest [OF i] by blast
  have r: "interest (set_root k p s3) = interest s3 \<and> freqs (set_root k p s3) = freqs s3 \<and>
      nodes_f (set_root k p s3) = nodes_f s3" for k
    by (simp add: set_root_def)
  from fl show ?thesis
    using a r [of "PayloadCID (heap s p)"] by (auto simp: same_rest_def dest!: Flush_interest)
qed

section \<open>Reads, drops and the lock\<close>

text \<open>Claim C3 at a concrete run: \<open>SetRef\<close> of A, then two reads.\<close>

theorem C3_witness:
  "Freq (heap (snd (new_ref ''A'' 100 1 emptyIndex)) 0) = 0 \<and>
   Freq (heap (the (get_many [env_ok, env_ok] ''A'' (the (state_of scenario_S1)))) 0) = 2 \<and>
   persisted_freq (the (get_many [env_ok, env_ok] ''A'' (the (state_of scenario_S1)))) ''A'' = Some 2"
proof -
  let ?s = "snd (new_ref ''A'' 100 1 emptyIndex)"
  let ?s1 = "the (state_of scenario_S1)"
  let ?s2 = "the (get_many [env_ok, env_ok] ''A'' ?s1)"
  have h1: "Freq (heap ?s 0) = 0" and h2: "bucketNode (heap ?s 0) = None"
    and k: "PayloadCID (heap ?s 0) = ''A''"
    by (simp_all add: model_defs)
  have h3: "SetRef env_ok 0 ?s = Return None ?s1"
    by (simp add: scenario_S1_def model_defs)
  have h4: "get_many [env_ok, env_ok] (PayloadCID (heap ?s 0)) ?s1 = Some ?s2"
    by (simp add: scenario_S1_def model_defs)
  from C3_frequency_counts_reads [OF h1 h2 h3 h4] h1 show ?thesis
    by (simp add: k del: get_many.simps)
qed

lemma DropRef_size:
  "DropRef env k s = Return e s' \<Longrightarrow> size_idx s' = size_idx s"
  by (auto simp: DropRef_def Let_def Flush_def
      split: if_splits option.splits element.splits prod.splits flush_result.splits)

text \<open>
  Claim C7 on the code: after \<open>SetRef\<close> of A (100 bytes) and \<open>DropRef\<close> of A the held
  map, the bucket list and the HAMT are empty, the sub-store 1 is deleted and a second
  \<open>DropRef\<close> of A returns \<open>ErrRefNotFound\<close>, but the accumulated size is still 100:
  \<open>DropRef\<close> never deducts the bytes of the record (\<open>evict\<close> does).
\<close>

theorem C7_drop_keeps_size:
  "value_of scenario_S4 = Some None \<and>
   map_option held_cids (state_of scenario_S4) = Some [] \<and>
   map_option blist (state_of scenario_S4) = Some [] \<and>
   map_option root (state_of scenario_S4) = Some [] \<and>
   map_option ds_idx (state_of scenario_S4) = Some (Some []) \<and>
   map_option ms_deleted (state_of scenario_S4) = Some [1] \<and>
   map_option size_idx (state_of scenario_S4) = Some 100 \<and>
   value_of (then_do scenario_S4 (DropRef env_ok ''A'')) = Some (Some ErrRefNotFound)"
  by (simp add: scenario_S4_def scenario_S1_def model_defs)

text \<open>
  Claim C5 on the code: after \<open>SetRef\<close> of A (100 bytes) and of B (50 bytes) and
  \<open>DropRef\<close> of A, B alone is held, the sizes of the held records sum to 50 and the
  accumulated size is 150.
\<close>

theorem C5_size_after_drop:
  "value_of scenario_drop_one = Some None \<and>
   map_option held_cids (state_of scenario_drop_one) = Some [''B''] \<and>
   map_option held_bytes (state_of scenario_drop_one) = Some 50 \<and>
   map_option size_idx (state_of scenario_drop_one) = Some 150"
  by (simp add: scenario_drop_one_def model_defs)

text \<open>
  Claim C9 on the code: an index made without bounds holds nothing, so \<open>Available\<close>
  returns 0; once \<open>LoadInterest\<close> has made A of interest, \<open>Interesting\<close> takes the
  front element of the empty bucket list, which is nil, and reading its value panics.
\<close>

theorem C9_interesting_panics:
  "value_of scenario_interest_only = Some None \<and>
   map_option held_cids (state_of scenario_interest_only) = Some [] \<and>
   map_option interest_cids (state_of scenario_interest_only) = Some [''A''] \<and>
   value_of (then_do scenario_interest_only Available) = Some 0 \<and>
   then_do scenario_interest_only (Interesting env_ok) = Panic"
  by (simp add: scenario_interest_only_def model_defs)

text \<open>
  Claim C10 on the code: with A held, the callback of \<open>LoadInterest\<close> on the key A
  returns with \<open>idx.mu\<close> locked. A root with A and then B blocks on the lock at B; a
  root with B and then A is loaded and leaves the lock held, and every later call on
  the held index (here \<open>PeekRef\<close>) blocks.
\<close>

theorem C10_lock_kept_on_skip:
  "map_option mu (state_of scenario_S1) = Some False \<and>
   map_option mu (state_of (then_do scenario_S1 (load_entry (remote ''A'' 100 3)))) = Some True \<and>
   scenario_load_held_first = Blocked \<and>
   value_of scenario_load_held_last = Some None \<and>
   then_do scenario_load_held_last (PeekRef ''A'') = Blocked"
  by (simp add: scenario_load_held_first_def scenario_load_held_last_def scenario_S1_def model_defs)

text \<open>
  Claim C8 on the code: with A held and a remote root that has B (frequency 1) and A,
  the first \<open>LoadInterest\<close> gives B the frequency 1 and returns with \<open>idx.mu\<close> locked;
  the second \<open>LoadInterest\<close> of the same root blocks on the lock at its first key, so B
  never reaches the frequency 2.
\<close>

theorem C8_second_load_blocks:
  "value_of scenario_load_held_last = Some None \<and>
   map_option (\<lambda>s. interest_freq s ''B'') (state_of scenario_load_held_last) = Some (Some 1) \<and>
   then_do scenario_load_held_last
     (LoadInterest (Some [remote ''B'' 100 1, remote ''A'' 100 3])) = Blocked"
  by (simp add: scenario_load_held_last_def scenario_S1_def model_defs)

section \<open>Eviction\<close>

lemma bytes_simps [simp]:
  "bytes s [] = 0" "bytes s (v # vs) = PayloadSize (heap s v) + bytes s vs"
  "bytes s (vs @ ws) = bytes s vs + bytes s ws"
  by (simp_all add: bytes_def)

lemma cids_simps [simp]:
  "cids s [] = {}" "cids s (v # vs) = insert (PayloadCID (heap s v)) (cids s vs)"
  "cids s (vs @ ws) = cids s vs \<union> cids s ws"
  by (auto simp: cids_def)

lemma evicted_refl [simp]: "evicted [] s s"
  by (simp add: evicted_def stores_def)

lemma evicted_trans:
  assumes "evicted vs s s1" "evicted ws s1 s2"
  shows "evicted (vs @ ws) s s2"
proof -
  from assms have h: "heap s1 = heap s" by (simp add: evicted_def)
  then have b: "bytes s1 ws = bytes s ws" "cids s1 ws = cids s ws" "stores s1 ws = stores s ws"
    by (simp_all add: bytes_def cids_def stores_def)
  with assms h show ?thesis
    by (simp add: evicted_def stores_def diff_diff_add)
qed

lemma remBlistEntry_ms_deleted [simp]: "ms_deleted (remBlistEntry c p s) = ms_deleted s"
  by (simp add: remBlistEntry_def Let_def)

lemma evicted_step: "evicted [e] s (reclaim place e (unhold e s))"
  by (simp add: evicted_def stores_def reclaim_def unhold_def Let_def delete_conv)

lemma strict_prefix_Cons_cases:
  "strict_prefix vs' (e # vs) \<Longrightarrow> vs' = [] \<or> (\<exists>us. vs' = e # us \<and> strict_prefix us vs)"
  by (cases vs') auto

lemma reclaim_unhold_nodes:
  "e' \<noteq> place \<Longrightarrow> nodes_b (reclaim place e (unhold e s)) e' = nodes_b s e'"
  by (simp add: reclaim_def unhold_def remBlistEntry_def Let_def)

text \<open>
  The inner loop, when no deletion fails and the target is not reached yet: it
  evicts a prefix of the entries it is given, and stops at the first entry that
  brings the evicted bytes to the target.
\<close>

lemma evict_entries_prefix:
  assumes "\<forall>i. \<not> ms_delete_fails env i" and "ev < t"
    and "evict_entries env t place es (ev, s) = (fl, ev', s')"
  shows "\<exists>vs. prefix vs es \<and> (if fl then t \<le> ev' else vs = es \<and> ev' < t) \<and>
           ev' = ev + bytes s vs \<and> (\<forall>vs'. strict_prefix vs' vs \<longrightarrow> ev + bytes s vs' < t) \<and>
           evicted vs s s' \<and> (\<forall>e. e \<noteq> place \<longrightarrow> nodes_b s' e = nodes_b s e)"
  using assms(2,3)
proof (induction es arbitrary: ev s)
  case Nil
  then show ?case by auto
next
  case (Cons e es)
  let ?s1 = "reclaim place e (unhold e s)"
  let ?ev1 = "ev + PayloadSize (heap s e)"
  have h1: "heap ?s1 = heap s" by simp
  show ?case
  proof (cases "t \<le> ?ev1")
    case True
    with Cons.prems assms(1) have r: "fl" "ev' = ?ev1" "s' = ?s1" by simp_all
    have "prefix [e] (e # es)" by simp
    moreover have "\<forall>vs'. strict_prefix vs' [e] \<longrightarrow> ev + bytes s vs' < t"
      using Cons.prems(1) by (auto dest: strict_prefix_Cons_cases)
    ultimately show ?thesis
      using r True evicted_step [of e s place] reclaim_unhold_nodes [of _ place e s]
      by (intro exI [of _ "[e]"]) simp
  next
    case False
    then have lt1: "?ev1 < t" by simp
    from False Cons.prems assms(1)
    have "evict_entries env t place es (?ev1, ?s1) = (fl, ev', s')" by simp
    from Cons.IH [OF lt1 this] obtain vs where vs: "prefix vs es"
      "if fl then t \<le> ev' else vs = es \<and> ev' < t" "ev' = ?ev1 + bytes ?s1 vs"
      "\<forall>vs'. strict_prefix vs' vs \<longrightarrow> ?ev1 + bytes ?s1 vs' < t"
      "evicted vs ?s1 s'" "\<forall>e'. e' \<noteq> place \<longrightarrow> nodes_b s' e' = nodes_b ?s1 e'"
      by blast
    have b: "bytes ?s1 ws = bytes s ws" for ws by (simp add: bytes_def)
    have "prefix (e # vs) (e # es)" using vs(1) by simp
    moreover have "if fl then t \<le> ev' else e # vs = e # es \<and> ev' < t" using vs(2) by auto
    moreover have "ev' = ev + bytes s (e # vs)" using vs(3) by (simp add: b add.assoc)
    moreover have "\<forall>vs'. strict_prefix vs' (e # vs) \<longrightarrow> ev + bytes s vs' < t"
      using vs(4) Cons.prems(1) by (auto dest!: strict_prefix_Cons_cases simp: b add.assoc)
    moreover have "evicted (e # vs) s s'"
      using evicted_trans [OF evicted_step [of e s place] vs(5)] by simp
    moreover have "\<forall>e'. e' \<noteq> place \<longrightarrow> nodes_b s' e' = nodes_b s e'"
      using vs(6) reclaim_unhold_nodes [of _ place e s] by simp
    ultimately show ?thesis by blast
  qed
qed

lemma walk_from_cong:
  "(\<And>e. e \<in> set l \<Longrightarrow> nodes_b s' e = nodes_b s e) \<Longrightarrow> walk_from env s' l = walk_from env s l"
  by (simp add: walk_from_def cong: map_cong)

lemma evict_walk_prefix:
  assumes "\<forall>i. \<not> ms_delete_fails env i" and "distinct l" and "ev < t"
    and "evict_walk env t l (ev, s) = (ev', s')"
  shows "\<exists>vs. prefix vs (walk_from env s l) \<and> ev' = ev + bytes s vs \<and>
           (\<forall>vs'. strict_prefix vs' vs \<longrightarrow> ev + bytes s vs' < t) \<and>
           evicted vs s s' \<and> (\<forall>e. e \<notin> set l \<longrightarrow> nodes_b s' e = nodes_b s e)"
  using assms(2,3,4)
proof (induction l arbitrary: ev s)
  case Nil
  then show ?case by (auto simp: walk_from_def)
next
  case (Cons place l)
  let ?es = "iter env (entries (nodes_b s place))"
  obtain fl ev1 s1 where e: "evict_entries env t place ?es (ev, s) = (fl, ev1, s1)"
    by (metis prod_cases3)
  from evict_entries_prefix [OF assms(1) Cons.prems(2) e] obtain vs where vs: "prefix vs ?es"
      "if fl then t \<le> ev1 else vs = ?es \<and> ev1 < t" "ev1 = ev + bytes s vs"
      "\<forall>vs'. strict_prefix vs' vs \<longrightarrow> ev + bytes s vs' < t"
      "evicted vs s s1" "\<forall>e'. e' \<noteq> place \<longrightarrow> nodes_b s1 e' = nodes_b s e'"
    by blast
  have w: "walk_from env s (place # l) = ?es @ walk_from env s l"
    by (simp add: walk_from_def)
  show ?case
  proof (cases "fl \<or> place \<notin> set (blist s1)")
    case True
    with Cons.prems(3) e have r: "ev' = ev1" "s' = s1" by (auto split: if_splits)
    have "prefix vs (walk_from env s (place # l))" using vs(1) by (simp add: w)
    with vs r show ?thesis by (intro exI [of _ vs]) auto
  next
    case False
    then have nf: "\<not> fl" and full: "vs = ?es" and lt1: "ev1 < t" using vs(2) by auto
    from False Cons.prems(3) e have "evict_walk env t l (ev1, s1) = (ev', s')" by simp
    from Cons.IH [OF _ lt1 this] Cons.prems(1) obtain ws where ws: "prefix ws (walk_from env s1 l)"
      "ev' = ev1 + bytes s1 ws" "\<forall>ws'. strict_prefix ws' ws \<longrightarrow> ev1 + bytes s1 ws' < t"
      "evicted ws s1 s'" "\<forall>e'. e' \<notin> set l \<longrightarrow> nodes_b s' e' = nodes_b s1 e'"
      by auto
    have h1: "heap s1 = heap s" using vs(5) by (simp add: evicted_def)
    have b: "bytes s1 xs = bytes s xs" for xs by (simp add: bytes_def h1)
    have "place \<notin> set l" using Cons.prems(1) by simp
    then have "walk_from env s1 l = walk_from env s l"
      using vs(6) by (intro walk_from_cong) auto
    then have "prefix (vs @ ws) (walk_from env s (place # l))"
      using ws(1) full by (simp add: w)
    moreover have "ev' = ev + bytes s (vs @ ws)" using ws(2) vs(3) by (simp add: b add.assoc)
    moreover have "\<forall>vs'. strict_prefix vs' (vs @ ws) \<longrightarrow> ev + bytes s vs' < t"
    proof (intro allI impI)
      fix vs' assume sp: "strict_prefix vs' (vs @ ws)"
      then have "prefix vs' vs \<or> (\<exists>us. vs' = vs @ us \<and> prefix us ws)"
        by (auto simp: prefix_append strict_prefix_def)
      then show "ev + bytes s vs' < t"
      proof
        assume p: "prefix vs' vs"
        show ?thesis
        proof (cases "vs' = vs")
          case True
          then show ?thesis using lt1 vs(3) by simp
        next
          case False
          with p have "strict_prefix vs' vs" by (simp add: strict_prefix_def)
          with vs(4) show ?thesis by blast
        qed
      next
        assume "\<exists>us. vs' = vs @ us \<and> prefix us ws"
        then obtain us where us: "vs' = vs @ us" "prefix us ws" by blast
        with sp have "strict_prefix us ws" by (auto simp: strict_prefix_def)
        with ws(3) have "ev1 + bytes s1 us < t" by blast
        then show ?thesis using us(1) vs(3) by (simp add: b add.assoc)
      qed
    qed
    moreover have "evicted (vs @ ws) s s'" using evicted_trans [OF vs(5) ws(4)] .
    moreover have "\<forall>e'. e' \<notin> set (place # l) \<longrightarrow> nodes_b s' e' = nodes_b s e'"
      using ws(5) vs(6) by auto
    ultimately show ?thesis by blast
  qed
qed


lemma increment_new_returns:
  assumes "bucketNode (heap s p) = None"
  shows "\<exists>s'. increment p s = Some s'"
  using assms
  by (auto simp: increment_def needs_bucket_def PushFront_b_def split: option.splits)

lemma increment_ms_deleted:
  "increment p s = Some s' \<Longrightarrow> ms_deleted s' = ms_deleted s"
  by (erule increment_cases)
    (simp_all add: place_ref_def PushFront_b_def InsertAfter_b_def)

lemma walk_b_walk_from: "walk_b env s = walk_from env s (blist s)"
  by (simp add: walk_b_def walk_from_def)

lemma evict_prefix:
  assumes "\<forall>i. \<not> ms_delete_fails env i" and "distinct (blist s)" and "0 < t"
  shows "\<exists>vs. prefix vs (walk_b env s) \<and> fst (evict env t s) = bytes s vs \<and>
           (\<forall>vs'. strict_prefix vs' vs \<longrightarrow> bytes s vs' < t) \<and>
           evicted vs s (snd (evict env t s))"
proof -
  obtain ev' s' where e: "evict_walk env t (blist s) (0, s) = (ev', s')"
    by (cases "evict_walk env t (blist s) (0, s)")
  from evict_walk_prefix [OF assms(1,2,3) e] e show ?thesis
    by (auto simp: evict_def walk_b_walk_from)
qed


lemma SetRef_returns:
  assumes "\<not> mu s" and "increment p (admit env p s) = Some s3"
  shows "\<exists>e s'. SetRef env p s = Return e s' \<and> Refs s' = Refs s3 \<and>
           size_idx s' = size_idx s3 \<and> ms_deleted s' = ms_deleted s3 \<and> heap s' = heap s3 \<and>
           blist s' = blist s3 \<and> nodes_b s' = nodes_b s3 \<and> mu s' = mu s3 \<and>
           next_ref s' = next_ref s3 \<and> next_b s' = next_b s3"
proof (cases "hamt_fails env")
  case True
  with assms show ?thesis by (simp add: SetRef_def)
next
  case False
  obtain e s4 where fl: "Flush env (set_root (PayloadCID (heap s p)) p s3) = (e, s4)"
    by (cases "Flush env (set_root (PayloadCID (heap s p)) p s3)")
  with False assms have "SetRef env p s = Return e s4" by (simp add: SetRef_def)
  with Flush_frame [OF fl] show ?thesis by (simp add: set_root_def)
qed

lemma nbytes_simps [simp]:
  "nbytes s [] = 0" "nbytes s (v # vs) = unat (PayloadSize (heap s v)) + nbytes s vs"
  "nbytes s (vs @ ws) = nbytes s vs + nbytes s ws"
  by (simp_all add: nbytes_def)

lemma unat_bytes:
  "nbytes s vs < 2 ^ 64 \<Longrightarrow> unat (bytes s vs) = nbytes s vs"
proof (induction vs)
  case Nil
  then show ?case by simp
next
  case (Cons v vs)
  then have "unat (bytes s vs) = nbytes s vs" by simp
  moreover from Cons.prems have "unat (PayloadSize (heap s v)) + nbytes s vs < 2 ^ 64" by simp
  ultimately show ?case by (simp add: unat_add_lem [THEN iffD1])
qed

lemma nbytes_prefix: "prefix vs ws \<Longrightarrow> nbytes s vs \<le> nbytes s ws"
  by (auto simp: prefix_def)





subsection \<open>When the front bucket does not reach the target\<close>

lemma evict_entries_bucket:
  assumes "\<forall>i. \<not> ms_delete_fails env i"
    and "evict_entries env t place es (ev, s) = (False, ev', s')"
  shows "entries (nodes_b s' place) = filter (\<lambda>x. x \<notin> set es) (entries (nodes_b s place)) \<and>
         blist s' = (if es \<noteq> [] \<and> filter (\<lambda>x. x \<notin> set es) (entries (nodes_b s place)) = []
                     then removeAll place (blist s) else blist s)"
  using assms(2)
proof (induction es arbitrary: ev s)
  case Nil
  then show ?case by simp
next
  case (Cons e es)
  define s1 where "s1 = reclaim place e (unhold e s)"
  have st: "entries (nodes_b s1 place) = removeAll e (entries (nodes_b s place))"
    "blist s1 = (if removeAll e (entries (nodes_b s place)) = [] then removeAll place (blist s)
                 else blist s)"
    by (simp_all add: s1_def reclaim_def unhold_def remBlistEntry_def Remove_def Let_def)
  from Cons.prems assms(1)
  have "evict_entries env t place es (ev + PayloadSize (heap s e), s1) = (False, ev', s')"
    by (simp add: s1_def split: if_splits)
  from Cons.IH [OF this]
  have ih: "entries (nodes_b s' place) = filter (\<lambda>x. x \<notin> set es) (entries (nodes_b s1 place))"
    "blist s' = (if es \<noteq> [] \<and> filter (\<lambda>x. x \<notin> set es) (entries (nodes_b s1 place)) = []
                 then removeAll place (blist s1) else blist s1)"
    by simp_all
  have f: "filter (\<lambda>x. x \<notin> set es) (removeAll e xs) = filter (\<lambda>x. x \<notin> set (e # es)) xs" for xs
    by (induction xs) auto
  have g: "removeAll e xs = [] \<Longrightarrow> filter (\<lambda>x. x \<notin> set (e # es)) xs = []" for xs
    using f [of xs] by simp
  show ?case
  proof (cases "es = []")
    case True
    then show ?thesis using ih st f [of "entries (nodes_b s place)"] by simp
  next
    case False
    then show ?thesis
      using ih st f [of "entries (nodes_b s place)"] g [of "entries (nodes_b s place)"]
      by (auto split: if_splits)
  qed
qed


lemma bytes_lt_of_nbytes:
  assumes "nbytes s ws < unat t" and "prefix vs ws"
  shows "bytes s vs < t"
proof -
  have le: "nbytes s vs \<le> nbytes s ws" using assms(2) by (rule nbytes_prefix)
  have "unat t < 2 ^ 64" using unsigned_less [of t] by simp
  with le assms(1) have "nbytes s vs < 2 ^ 64" by simp
  then have "unat (bytes s vs) = nbytes s vs" by (rule unat_bytes)
  with le assms(1) show ?thesis by (simp add: word_less_nat_alt)
qed

text \<open>
  \<open>evict\<close> when no deletion fails and the front bucket does not reach the target: it
  evicts the front bucket and nothing else, whatever the buckets behind it hold.
\<close>

lemma evict_front_short:
  assumes ok: "\<forall>i. \<not> ms_delete_fails env i" and it: "valid_iter (iter env)"
    and bl: "blist s = f # rest" and d: "distinct (blist s)"
    and de: "distinct (entries (nodes_b s f))" and ne: "entries (nodes_b s f) \<noteq> []"
    and short: "nbytes s (front_walk env s) < unat t"
  shows "fst (evict env t s) = bytes s (front_walk env s) \<and>
         evicted (front_walk env s) s (snd (evict env t s)) \<and>
         blist (snd (evict env t s)) = rest"
proof -
  let ?es = "iter env (entries (nodes_b s f))"
  have fw: "front_walk env s = ?es" by (simp add: front_walk_def bl)
  from it de have ses: "set ?es = set (entries (nodes_b s f))" by (simp add: valid_iter_def)
  with ne have nes: "?es \<noteq> []" by auto
  have t0: "(0::64 word) < t" using short by (simp add: word_less_nat_alt)
  obtain fl ev1 s1 where e: "evict_entries env t f ?es (0, s) = (fl, ev1, s1)"
    by (metis prod_cases3)
  from evict_entries_prefix [OF ok t0 e] obtain vs where vs: "prefix vs ?es"
    "if fl then t \<le> ev1 else vs = ?es \<and> ev1 < t" "ev1 = bytes s vs" "evicted vs s s1"
    by auto
  have "bytes s vs < t" using short vs(1) unfolding fw by (rule bytes_lt_of_nbytes)
  with vs(2,3) have nfl: "\<not> fl" and all: "vs = ?es" by (auto split: if_splits)
  from e nfl have e': "evict_entries env t f ?es (0, s) = (False, ev1, s1)" by simp
  have "filter (\<lambda>x. x \<notin> set ?es) (entries (nodes_b s f)) = []"
    by (simp add: ses filter_empty_conv)
  with evict_entries_bucket [OF ok e'] nes have b1: "blist s1 = removeAll f (blist s)" by simp
  with d bl have b2: "blist s1 = rest" by simp
  with d bl have "f \<notin> set (blist s1)" by simp
  with e' have "evict env t s = (ev1, s1)" by (simp add: evict_def bl)
  with vs(3,4) all b2 show ?thesis by (simp add: fw)
qed

text \<open>
  \<open>SetRef\<close> when the front bucket does not reach the target \<open>S - L\<close>: the front bucket is
  evicted, the walk ends there, and \<open>SetRef\<close> returns with a size above the lower
  bound.
\<close>

lemma SetRef_evicts_front_bucket_only:
  assumes "\<not> mu s" and "0 < ub s" and "0 < lb s" and "lb s \<le> ub s"
    and "unat (size_idx s) + unat (PayloadSize (heap s p)) < 2 ^ 64"
    and "ub s < size_idx s + PayloadSize (heap s p)"
    and "bucketNode (heap s p) = None"
    and "\<forall>i. \<not> ms_delete_fails env i" and "valid_iter (iter env)"
    and "blist s = f # rest" and "distinct (blist s)"
    and "distinct (entries (nodes_b s f))" and "entries (nodes_b s f) \<noteq> []"
    and "nbytes s (front_walk env s) < unat (size_idx s + PayloadSize (heap s p) - lb s)"
  shows "\<exists>e s'. SetRef env p s = Return e s' \<and>
           (\<forall>k. map_of (Refs s') k =
              (if k \<in> cids s (front_walk env s) then None
               else ((map_of (Refs s))(PayloadCID (heap s p) \<mapsto> p)) k)) \<and>
           ms_deleted s' = rev (stores s (front_walk env s)) @ ms_deleted s \<and>
           size_idx s' = size_idx s + PayloadSize (heap s p) - bytes s (front_walk env s) \<and>
           lb s < size_idx s'"
proof -
  let ?S = "size_idx s + PayloadSize (heap s p)"
  let ?k = "PayloadCID (heap s p)"
  let ?s1 = "s\<lparr>Refs := AList.update ?k p (Refs s), size_idx := ?S\<rparr>"
  let ?t = "?S - lb s"
  let ?w = "front_walk env s"
  have uS: "unat ?S = unat (size_idx s) + unat (PayloadSize (heap s p))"
    using assms(5) by (simp add: unat_add_lem [THEN iffD1])
  have lS: "lb s \<le> ?S" using assms(4,6) by simp
  then have ut: "unat ?t = unat ?S - unat (lb s)" by (simp add: unat_sub)
  have ad: "admit env p s = snd (evict env ?t ?s1)"
    using assms(2,3,6) by (simp add: admit_def Let_def)
  have fw: "front_walk env ?s1 = ?w"
    by (simp add: front_walk_def split: list.splits)
  have b: "bytes ?s1 xs = bytes s xs" "cids ?s1 xs = cids s xs" "stores ?s1 xs = stores s xs"
    "nbytes ?s1 xs = nbytes s xs" for xs
    by (simp_all add: bytes_def cids_def stores_def nbytes_def)
  have short: "nbytes ?s1 (front_walk env ?s1) < unat ?t" using assms(14) by (simp add: fw b)
  have ev: "evicted ?w ?s1 (admit env p s)"
    using evict_front_short [OF assms(8,9) _ _ _ _ short, of f rest] assms(10-13)
    by (simp add: ad fw)
  have "unat ?t < 2 ^ 64" using unsigned_less [of ?t] by simp
  with assms(14) have "nbytes s ?w < 2 ^ 64" by simp
  then have ub: "unat (bytes s ?w) = nbytes s ?w" by (rule unat_bytes)
  from increment_new_returns [of "admit env p s" p] assms(7)
  obtain s3 where i: "increment p (admit env p s) = Some s3" by auto
  note fr = increment_same_rest [OF i] increment_ms_deleted [OF i]
  from SetRef_returns [OF assms(1) i] obtain e s' where r: "SetRef env p s = Return e s'"
    and f: "Refs s' = Refs s3" "size_idx s' = size_idx s3" "ms_deleted s' = ms_deleted s3"
    by blast
  have sz: "size_idx s' = ?S - bytes s ?w"
    using f fr ev by (simp add: evicted_def b)
  have bS: "bytes s ?w \<le> ?S" using assms(14) ub ut by (simp add: word_le_nat_alt)
  have "unat (lb s) < unat (?S - bytes s ?w)"
    using assms(14) ub ut bS by (simp add: unat_sub)
  then have gt: "lb s < size_idx s'" by (simp add: sz word_less_nat_alt)
  have rf: "\<forall>k. map_of (Refs s') k =
      (if k \<in> cids s ?w then None else ((map_of (Refs s))(?k \<mapsto> p)) k)"
    using f fr ev by (simp add: evicted_def b update_conv')
  have md: "ms_deleted s' = rev (stores s ?w) @ ms_deleted s"
    using f fr ev by (simp add: evicted_def b)
  show ?thesis
    by (intro exI [of _ e] exI [of _ s'] conjI r rf md sz gt)
qed

section \<open>The order of the bucket list\<close>

subsection \<open>Lists\<close>

lemma Next_in:
  "Next l c = Some n \<Longrightarrow> distinct l \<Longrightarrow> c \<in> set l \<and> n \<in> set l \<and> n \<noteq> c"
  by (induction l c rule: Next.induct) (auto split: if_splits)

lemma set_insert_after: "c \<in> set l \<Longrightarrow> set (insert_after n c l) = insert n (set l)"
  by (induction l) auto

lemma set_insert_after_subset: "set (insert_after n c l) \<subseteq> insert n (set l)"
  by (induction l) auto

lemma distinct_insert_after: "distinct l \<Longrightarrow> n \<notin> set l \<Longrightarrow> distinct (insert_after n c l)"
  using set_insert_after_subset [of n c] by (induction l) (auto simp: subset_iff)

lemma sorted_wrt_removeAll: "sorted_wrt P l \<Longrightarrow> sorted_wrt P (removeAll x l)"
  by (induction l) auto

lemma sorted_insert_after:
  fixes f :: "nat \<Rightarrow> int"
  assumes "sorted_wrt (\<lambda>a b. f a < f b) l" and "c \<in> set l" and "f n = f c + 1"
    and "\<forall>m. Next l c = Some m \<longrightarrow> f m \<noteq> f c + 1"
  shows "sorted_wrt (\<lambda>a b. f a < f b) (insert_after n c l)"
  using assms
proof (induction l)
  case Nil
  then show ?case by simp
next
  case (Cons x xs)
  show ?case
  proof (cases "x = c")
    case True
    have "f n < f y" if "y \<in> set xs" for y
    proof (cases xs)
      case Nil
      with that show ?thesis by simp
    next
      case (Cons m ms)
      with True Cons.prems(4) have "f m \<noteq> f c + 1" by simp
      moreover from Cons.prems(1) True Cons have "f c < f m" by simp
      ultimately have "f n < f m" using Cons.prems(3) by simp
      moreover from Cons.prems(1) Cons that have "y = m \<or> f m < f y" by auto
      ultimately show ?thesis by auto
    qed
    with True Cons.prems(1,3) show ?thesis by auto
  next
    case False
    with Cons.prems(2) have c: "c \<in> set xs" by simp
    then obtain y ys where xs: "xs = y # ys" by (cases xs) auto
    with False Cons.prems(4) have "\<forall>m. Next xs c = Some m \<longrightarrow> f m \<noteq> f c + 1" by simp
    with Cons.IH Cons.prems(1,3) c have "sorted_wrt (\<lambda>a b. f a < f b) (insert_after n c xs)" by simp
    moreover have "f x < f y" if "y \<in> set (insert_after n c xs)" for y
      using that Cons.prems(1,3) c by (auto simp: set_insert_after)
    ultimately show ?thesis using False by simp
  qed
qed

lemma distinct_concat_map:
  assumes "distinct l" and "\<forall>e\<in>set l. distinct (g e)"
    and "\<forall>e\<in>set l. \<forall>e'\<in>set l. e \<noteq> e' \<longrightarrow> set (g e) \<inter> set (g e') = {}"
  shows "distinct (concat (map g l))"
  using assms by (induction l) auto

lemma sorted_wrt_concat_map:
  assumes "sorted_wrt Q l" and "\<forall>e\<in>set l. sorted_wrt R (g e)"
    and "\<forall>e e'. Q e e' \<longrightarrow> (\<forall>x\<in>set (g e). \<forall>y\<in>set (g e'). R x y)"
  shows "sorted_wrt R (concat (map g l))"
  using assms by (induction l) (auto simp: sorted_wrt_append)

lemma sint_plus_1:
  fixes w :: "64 word"
  assumes "sint w < 2 ^ 63 - 1"
  shows "sint (w + 1) = sint w + 1"
proof -
  have "- (2 ^ 63) \<le> sint w" using sint_ge [of w] by simp
  then have "signed_take_bit 63 (sint w + 1) = sint w + 1"
    using assms by (intro signed_take_bit_int_eq_self) simp_all
  then show ?thesis by (simp add: sint_word_ariths)
qed

lemma sint_eq_1:
  fixes w :: "64 word"
  shows "sint w = 1 \<Longrightarrow> w = 1"
proof -
  assume "sint w = 1"
  then have "sint w = sint (1 :: 64 word)" by simp
  then show ?thesis by (simp only: signed_word_eqI)
qed

lemma held_entry:
  assumes "held_ok {} s" and "map_of (Refs s) k = Some p"
  obtains c where "c \<in> set (blist s)" "p \<in> set (entries (nodes_b s c))"
    "bucketNode (heap s p) = Some (BlistElem c)" "PayloadCID (heap s p) = k"
  using assms unfolding held_ok_def by blast

lemma bucket_unique:
  assumes "held_ok X s" and "e \<in> set (blist s)" "e' \<in> set (blist s)"
    and "p \<in> set (entries (nodes_b s e))" "p \<in> set (entries (nodes_b s e'))"
  shows "e = e'"
proof -
  from assms have "bucketNode (heap s p) = Some (BlistElem e)" "bucketNode (heap s p) = Some (BlistElem e')"
    unfolding held_ok_def by blast+
  then show ?thesis by simp
qed

text \<open>
  The move of \<open>increment\<close>: the record \<open>p\<close> leaves the bucket of \<open>c\<close> for the bucket
  of \<open>n\<close>, whose id is one more; the bucket of \<open>n\<close> may have been empty.
\<close>

lemma move_state:
  fixes i :: int64
  assumes "n \<noteq> c" and "p \<notin> set (entries (nodes_b s n))"
    and "s' = remBlistEntry c p (place_ref p True i n s)"
  shows "heap s' = (heap s)(p := (heap s p)\<lparr>Freq := Freq (heap s p) + 1, BucketID := i,
                                  bucketNode := Some (BlistElem n)\<rparr>)"
    and "nodes_b s' = (nodes_b s)
           (n := (nodes_b s n)\<lparr>entries := entries (nodes_b s n) @ [p]\<rparr>,
            c := (nodes_b s c)\<lparr>entries := removeAll p (entries (nodes_b s c))\<rparr>)"
    and "blist s' = (if removeAll p (entries (nodes_b s c)) = [] then removeAll c (blist s)
                     else blist s)"
    and "Refs s' = Refs s" "next_b s' = next_b s" "next_ref s' = next_ref s" "mu s' = mu s"
  using assms
  by (simp_all add: remBlistEntry_def place_ref_def put_entry_def Remove_def Let_def)

lemma inv_move:
  assumes m: "\<not> mu s" and l: "linked_but n s" and h: "held_ok {} s" and f: "lfu (Suc g) s"
    and c: "c \<in> set (blist s)" "p \<in> set (entries (nodes_b s c))"
    and n: "n \<in> set (blist s)" "n \<noteq> c" "id_b (nodes_b s n) = id_b (nodes_b s c) + 1"
    and s': "s' = remBlistEntry c p (place_ref p True i n s)"
  shows "shaped {} (Suc g) s'"
proof -
  have pn: "p \<notin> set (entries (nodes_b s n))"
    using bucket_unique [OF h n(1) c(1) _ c(2)] n(2) by blast
  note st = move_state [OF n(2) pn s']
  define E where "E e = entries (nodes_b s e)" for e
  define E' where "E' e = entries (nodes_b s' e)" for e
  have En: "E' n = E n @ [p]" and Ec: "E' c = removeAll p (E c)"
    and Eo: "\<And>e. e \<noteq> n \<Longrightarrow> e \<noteq> c \<Longrightarrow> E' e = E e"
    and ids: "\<And>e. id_b (nodes_b s' e) = id_b (nodes_b s e)"
    using n(2) by (auto simp: E_def E'_def st)
  have Hp: "PayloadCID (heap s' p) = PayloadCID (heap s p)"
    "bucketNode (heap s' p) = Some (BlistElem n)" "Freq (heap s' p) = Freq (heap s p) + 1"
    and Ho: "\<And>q. q \<noteq> p \<Longrightarrow> heap s' q = heap s q"
    by (simp_all add: st)
  have B: "set (blist s') \<subseteq> set (blist s)" "distinct (blist s')"
    "\<And>e. e \<in> set (blist s) \<Longrightarrow> e \<noteq> c \<Longrightarrow> e \<in> set (blist s')"
    "c \<in> set (blist s') \<Longrightarrow> E' c \<noteq> []"
    using l by (auto simp: st linked_but_def E'_def distinct_removeAll split: if_splits)
  have hb: "\<And>e q. e \<in> set (blist s) \<Longrightarrow> q \<in> set (E e) \<Longrightarrow>
      map_of (Refs s) (PayloadCID (heap s q)) = Some q \<and> bucketNode (heap s q) = Some (BlistElem e)"
    using h unfolding held_ok_def E_def by blast
  have only_c: "\<And>e. e \<in> set (blist s) \<Longrightarrow> p \<in> set (E e) \<Longrightarrow> e = c"
    using bucket_unique [OF h _ c(1) _ c(2)] unfolding E_def by blast
  have E'sub: "\<And>e q. q \<in> set (E' e) \<Longrightarrow> q \<noteq> p \<Longrightarrow> q \<in> set (E e)"
  proof -
    fix e q assume "q \<in> set (E' e)" "q \<noteq> p"
    then show "q \<in> set (E e)"
      by (cases "e = n"; cases "e = c") (auto simp: En Ec Eo)
  qed
  have E'p: "\<And>e. e \<in> set (blist s) \<Longrightarrow> p \<in> set (E' e) \<Longrightarrow> e = n"
  proof -
    fix e assume e: "e \<in> set (blist s)" "p \<in> set (E' e)"
    show "e = n"
    proof (rule ccontr)
      assume ne: "e \<noteq> n"
      show False
      proof (cases "e = c")
        case True
        with e show False by (simp add: Ec)
      next
        case False
        with ne e have "p \<in> set (E e)" by (simp add: Eo)
        with only_c e(1) False show False by blast
      qed
    qed
  qed
  have "linked s'"
    unfolding linked_def
  proof (intro conjI ballI)
    show "distinct (blist s')" by (rule B)
  next
    fix e assume e: "e \<in> set (blist s')"
    then have eb: "e \<in> set (blist s)" using B(1) by blast
    with l have "e < next_b s" "distinct (E e)" "e \<noteq> n \<longrightarrow> E e \<noteq> []"
      by (auto simp: linked_but_def E_def)
    then show "e < next_b s'" by (simp add: st)
    show "entries (nodes_b s' e) \<noteq> []"
    proof (cases "e = n")
      case True
      then show ?thesis using En by (simp add: E'_def)
    next
      case False
      show ?thesis
      proof (cases "e = c")
        case True
        with B(4) e show ?thesis by (simp add: E'_def)
      next
        case nc: False
        with False Eo [of e] \<open>e \<noteq> n \<longrightarrow> E e \<noteq> []\<close> show ?thesis by (simp add: E'_def)
      qed
    qed
    show "distinct (entries (nodes_b s' e))"
    proof (cases "e = n")
      case True
      with \<open>distinct (E e)\<close> pn show ?thesis by (simp add: E'_def [symmetric] En E_def)
    next
      case False
      with \<open>distinct (E e)\<close> show ?thesis
        by (cases "e = c") (simp_all add: E'_def [symmetric] Ec Eo distinct_removeAll)
    qed
  qed
  moreover have "held_ok {} s'"
    unfolding held_ok_def
  proof (intro conjI allI impI ballI)
    show "distinct (map fst (Refs s'))" using h by (simp add: held_ok_def st)
  next
    fix k q assume kq: "map_of (Refs s') k = Some q"
    then have kq0: "map_of (Refs s) k = Some q" by (simp add: st)
    with h have "PayloadCID (heap s q) = k" "q < next_ref s" by (auto simp: held_ok_def)
    then show "PayloadCID (heap s' q) = k" "q < next_ref s'"
      using Hp(1) Ho [of q] by (cases "q = p"; simp add: st)+
    from h kq0 obtain e where e: "e \<in> set (blist s)" "q \<in> set (E e)"
      unfolding held_ok_def E_def by blast
    show "\<exists>e\<in>set (blist s'). q \<in> set (entries (nodes_b s' e))"
    proof (cases "q = p")
      case True
      have "n \<in> set (blist s')" using B(3) n by simp
      moreover have "p \<in> set (E' n)" by (simp add: En)
      ultimately show ?thesis using True unfolding E'_def by blast
    next
      case False
      show ?thesis
      proof (cases "e = c")
        case True
        with e False have qc: "q \<in> set (E' c)" by (simp add: Ec)
        then have "q \<in> set (removeAll p (entries (nodes_b s c)))" by (simp add: Ec E_def)
        then have "removeAll p (entries (nodes_b s c)) \<noteq> []" by (metis empty_iff empty_set)
        then have "c \<in> set (blist s')" using c(1) by (simp add: st)
        with qc show ?thesis unfolding E'_def by blast
      next
        case nc: False
        then have "e \<in> set (blist s')" using B(3) e by simp
        moreover have "q \<in> set (E' e)" using e nc by (cases "e = n") (simp_all add: En Eo)
        ultimately show ?thesis unfolding E'_def by blast
      qed
    qed
  next
    fix e q assume e: "e \<in> set (blist s')" "q \<in> set (entries (nodes_b s' e))"
    then have eb: "e \<in> set (blist s)" and qe: "q \<in> set (E' e)" using B(1) by (auto simp: E'_def)
    have "map_of (Refs s') (PayloadCID (heap s' q)) = Some q \<and>
          bucketNode (heap s' q) = Some (BlistElem e)"
    proof (cases "q = p")
      case True
      with E'p eb qe have "e = n" by blast
      moreover from hb [OF c(1)] c(2) have "map_of (Refs s) (PayloadCID (heap s p)) = Some p"
        by (simp add: E_def)
      ultimately show ?thesis using True Hp by (simp add: st)
    next
      case False
      with E'sub qe have "q \<in> set (E e)" by blast
      with hb eb have "map_of (Refs s) (PayloadCID (heap s q)) = Some q"
        "bucketNode (heap s q) = Some (BlistElem e)" by blast+
      then show ?thesis using False Ho [of q] by (simp add: st(4))
    qed
    then show "map_of (Refs s') (PayloadCID (heap s' q)) = Some q"
      "bucketNode (heap s' q) = Some (BlistElem e)" "PayloadCID (heap s' q) \<notin> {}"
      by simp_all
  qed simp
  moreover have "lfu (Suc g) s'"
    unfolding lfu_def
  proof (intro conjI ballI)
    have "sorted_wrt (\<lambda>a b. sint (id_b (nodes_b s a)) < sint (id_b (nodes_b s b))) (blist s')"
      using f by (auto simp: lfu_def st sorted_wrt_removeAll)
    then show "sorted_wrt (\<lambda>a b. sint (id_b (nodes_b s' a)) < sint (id_b (nodes_b s' b))) (blist s')"
      by (simp add: ids)
  next
    fix e assume "e \<in> set (blist s')"
    then have eb: "e \<in> set (blist s)" using B(1) by blast
    with f show "1 \<le> sint (id_b (nodes_b s' e))" "sint (id_b (nodes_b s' e)) \<le> 1 + int (Suc g)"
      by (auto simp: lfu_def ids)
    fix q assume "q \<in> set (entries (nodes_b s' e))"
    then have qe: "q \<in> set (E' e)" by (simp add: E'_def)
    show "Freq (heap s' q) + 1 = id_b (nodes_b s' e)"
    proof (cases "q = p")
      case True
      with E'p eb qe have "e = n" by blast
      moreover from f c have "Freq (heap s p) + 1 = id_b (nodes_b s c)" by (auto simp: lfu_def)
      ultimately show ?thesis using True Hp(3) n(3) by (simp add: ids)
    next
      case False
      with E'sub qe have "q \<in> set (E e)" by blast
      with f eb have "Freq (heap s q) + 1 = id_b (nodes_b s e)" by (auto simp: lfu_def E_def)
      then show ?thesis using False Ho [of q] by (simp add: ids)
    qed
  qed
  ultimately show ?thesis using m by (simp add: shaped_def st)
qed

lemma lfu_mono: "lfu g s \<Longrightarrow> g \<le> g' \<Longrightarrow> lfu g' s"
  unfolding lfu_def by (auto intro: order_trans)

lemma inv_mono: "shaped X g s \<Longrightarrow> g \<le> g' \<Longrightarrow> shaped X g' s"
  unfolding shaped_def by (auto intro: lfu_mono)

lemma linked_linked_but: "linked s \<Longrightarrow> linked_but n s"
  by (auto simp: linked_def linked_but_def)

lemma sorted_wrt_cong_set:
  "(\<And>a b. a \<in> set l \<Longrightarrow> b \<in> set l \<Longrightarrow> P a b = Q a b) \<Longrightarrow> sorted_wrt P l = sorted_wrt Q l"
  by (induction l) auto

text \<open>A new bucket after \<open>c\<close>, with the id of \<open>c\<close> plus one, where none has that id.\<close>

lemma inv_insert_after:
  assumes shaped: "shaped {} g s" and c: "c \<in> set (blist s)"
    and nb: "needs_bucket (target_up c s) s" and g: "int g + 2 < 2 ^ 63"
    and s1: "s1 = snd (InsertAfter_b (newBucket (id_b (nodes_b s c) + 1)) c s)"
  shows "linked_but (next_b s) s1" "held_ok {} s1" "lfu (Suc g) s1" "\<not> mu s1"
    "next_b s \<in> set (blist s1)" "next_b s \<noteq> c" "c \<in> set (blist s1)"
    "nodes_b s1 c = nodes_b s c"
    "id_b (nodes_b s1 (next_b s)) = id_b (nodes_b s1 c) + 1"
proof -
  let ?n = "next_b s"
  from shaped have l: "linked s" and h: "held_ok {} s" and f: "lfu g s" and m: "\<not> mu s"
    by (simp_all add: shaped_def)
  have fresh: "\<And>e. e \<in> set (blist s) \<Longrightarrow> e \<noteq> ?n" using l by (auto simp: linked_def)
  have st: "blist s1 = insert_after ?n c (blist s)"
    "nodes_b s1 = (nodes_b s)(?n := newBucket (id_b (nodes_b s c) + 1))"
    "next_b s1 = Suc ?n" "heap s1 = heap s" "Refs s1 = Refs s" "next_ref s1 = next_ref s"
    "mu s1 = mu s"
    using c by (simp_all add: s1 InsertAfter_b_def)
  have bs: "set (blist s1) = insert ?n (set (blist s))"
    using c by (simp add: st set_insert_after)
  have no: "\<And>e. e \<in> set (blist s) \<Longrightarrow> nodes_b s1 e = nodes_b s e"
    using fresh by (auto simp: st)
  have nn: "nodes_b s1 ?n = newBucket (id_b (nodes_b s c) + 1)" by (simp add: st)
  show "\<not> mu s1" using m by (simp add: st)
  show "?n \<in> set (blist s1)" by (simp add: bs)
  show "?n \<noteq> c" using fresh c by blast
  show "c \<in> set (blist s1)" using c by (simp add: bs)
  show "nodes_b s1 c = nodes_b s c" using no c by simp
  show "id_b (nodes_b s1 ?n) = id_b (nodes_b s1 c) + 1"
    using no [OF c] by (simp add: nn newBucket_def)
  show "linked_but ?n s1"
    unfolding linked_but_def
  proof (intro conjI ballI impI)
    show "distinct (blist s1)"
      using l fresh by (auto simp: st linked_def intro!: distinct_insert_after)
  next
    fix e assume e: "e \<in> set (blist s1)"
    show "e < next_b s1" using e l by (auto simp: bs st(3) linked_def less_Suc_eq)
    show "distinct (entries (nodes_b s1 e))"
      using e l no by (auto simp: bs nn newBucket_def linked_def)
    assume "e \<noteq> ?n"
    with e have "e \<in> set (blist s)" by (simp add: bs)
    with l no show "entries (nodes_b s1 e) \<noteq> []" by (simp add: linked_def)
  qed
  show "held_ok {} s1"
    unfolding held_ok_def
  proof (intro conjI allI impI ballI)
    show "distinct (map fst (Refs s1))" using h by (simp add: held_ok_def st)
  next
    fix k q assume kq: "map_of (Refs s1) k = Some q"
    with h show "PayloadCID (heap s1 q) = k" "q < next_ref s1" by (auto simp: held_ok_def st)
    from h kq obtain e where "e \<in> set (blist s)" "q \<in> set (entries (nodes_b s e))"
      unfolding held_ok_def st by blast
    then show "\<exists>e\<in>set (blist s1). q \<in> set (entries (nodes_b s1 e))"
      using no bs by auto
  next
    fix e q assume e: "e \<in> set (blist s1)" "q \<in> set (entries (nodes_b s1 e))"
    then have "e \<noteq> ?n" by (auto simp: nn newBucket_def)
    with e have "e \<in> set (blist s)" "q \<in> set (entries (nodes_b s e))"
      using no by (auto simp: bs)
    with h show "map_of (Refs s1) (PayloadCID (heap s1 q)) = Some q"
      "bucketNode (heap s1 q) = Some (BlistElem e)" "PayloadCID (heap s1 q) \<notin> {}"
      unfolding held_ok_def st by blast+
  qed simp
  have idc: "1 \<le> sint (id_b (nodes_b s c))" "sint (id_b (nodes_b s c)) \<le> 1 + int g"
    using f c by (auto simp: lfu_def)
  then have "sint (id_b (nodes_b s c)) < 2 ^ 63 - 1" using g by simp
  from sint_plus_1 [OF this] have sp: "sint (id_b (nodes_b s c) + 1) = sint (id_b (nodes_b s c)) + 1" .
  show "lfu (Suc g) s1"
    unfolding lfu_def
  proof (intro conjI ballI)
    let ?f = "\<lambda>e. sint (id_b (nodes_b s1 e))"
    have "sorted_wrt (\<lambda>a b. ?f a < ?f b) (blist s)"
      using f no by (simp add: lfu_def cong: sorted_wrt_cong_set)
    moreover have "?f ?n = ?f c + 1" using no [OF c] sp by (simp add: nn newBucket_def)
    moreover have "\<forall>m. Next (blist s) c = Some m \<longrightarrow> ?f m \<noteq> ?f c + 1"
    proof (intro allI impI)
      fix m assume nx: "Next (blist s) c = Some m"
      with l have mb: "m \<in> set (blist s)" using Next_in by (auto simp: linked_def)
      from nb nx have "id_b (nodes_b s m) \<noteq> id_b (nodes_b s c) + 1"
        by (simp add: needs_bucket_def target_up_def)
      then have "sint (id_b (nodes_b s m)) \<noteq> sint (id_b (nodes_b s c) + 1)"
        using signed_word_eqI by blast
      then show "?f m \<noteq> ?f c + 1" using no [OF mb] no [OF c] sp by simp
    qed
    ultimately show "sorted_wrt (\<lambda>a b. ?f a < ?f b) (blist s1)"
      using c unfolding st(1) by (intro sorted_insert_after)
  next
    fix e assume e: "e \<in> set (blist s1)"
    show "1 \<le> sint (id_b (nodes_b s1 e))"
      using e f no idc sp by (auto simp: bs nn newBucket_def lfu_def)
    show "sint (id_b (nodes_b s1 e)) \<le> 1 + int (Suc g)"
      using e f no idc sp by (auto simp: bs nn newBucket_def lfu_def intro: order_trans)
    fix q assume q: "q \<in> set (entries (nodes_b s1 e))"
    then have "e \<noteq> ?n" by (auto simp: nn newBucket_def)
    with e q have "e \<in> set (blist s)" "q \<in> set (entries (nodes_b s e))"
      using no by (auto simp: bs)
    with f no show "Freq (heap s1 q) + 1 = id_b (nodes_b s1 e)"
      by (auto simp: lfu_def st(4))
  qed
qed

text \<open>A read of a held record: \<open>increment\<close> returns and keeps the shape.\<close>

lemma increment_held:
  assumes shaped: "shaped {} g s" and k: "map_of (Refs s) k = Some p" and g: "int g + 2 < 2 ^ 63"
  shows "\<exists>s'. increment p s = Some s' \<and> shaped {} (Suc g) s'"
proof -
  from shaped have l: "linked s" and h: "held_ok {} s" and f: "lfu g s" and m: "\<not> mu s"
    by (simp_all add: shaped_def)
  from held_entry [OF h k] obtain c where c: "c \<in> set (blist s)" "p \<in> set (entries (nodes_b s c))"
    "bucketNode (heap s p) = Some (BlistElem c)" by blast
  let ?i = "id_b (nodes_b s c) + 1"
  show ?thesis
  proof (cases "needs_bucket (target_up c s) s")
    case True
    define s1 where "s1 = snd (InsertAfter_b (newBucket ?i) c s)"
    note ia = inv_insert_after [OF shaped c(1) True g s1_def]
    have ins: "InsertAfter_b (newBucket ?i) c s = (Some (next_b s), s1)"
      using c(1) by (simp add: s1_def InsertAfter_b_def)
    then have "increment p s = Some (remBlistEntry c p (place_ref p True ?i (next_b s) s1))"
      using c(3) True by (simp add: increment_def target_up_def)
    moreover have "shaped {} (Suc g) (remBlistEntry c p (place_ref p True ?i (next_b s) s1))"
      using ia c(2) by (intro inv_move [where n = "next_b s" and c = c and s = s1]) simp_all
    ultimately show ?thesis by blast
  next
    case False
    then obtain n where n: "Next (blist s) c = Some n" "id_b (nodes_b s n) = ?i"
      by (auto simp: needs_bucket_def target_up_def split: option.splits)
    from l have d: "distinct (blist s)" by (simp add: linked_def)
    from Next_in [OF n(1) d] have nn: "n \<in> set (blist s)" "n \<noteq> c" by simp_all
    from False c(3) n have "increment p s = Some (remBlistEntry c p (place_ref p True ?i n s))"
      by (simp add: increment_def target_up_def)
    moreover have "shaped {} (Suc g) (remBlistEntry c p (place_ref p True ?i n s))"
      using m linked_linked_but [OF l] h lfu_mono [OF f] c nn n(2)
      by (intro inv_move [where n = n and c = c and s = s]) simp_all
    ultimately show ?thesis by blast
  qed
qed

lemma inv_frame:
  assumes "shaped X g s" and "mu s' = mu s" "blist s' = blist s" "nodes_b s' = nodes_b s"
    "next_b s' = next_b s" "Refs s' = Refs s" "heap s' = heap s" "next_ref s' = next_ref s"
  shows "shaped X g s'"
  using assms(1) unfolding shaped_def linked_def held_ok_def lfu_def assms(2-8) .

lemma GetRef_inv:
  assumes shaped: "shaped {} g s" and g: "int g + 2 < 2 ^ 63"
  shows "\<exists>r s'. GetRef env k s = Return r s' \<and> shaped {} (Suc g) s'"
proof (cases "map_of (Refs s) k")
  case None
  with shaped have "GetRef env k s = Return (None, Some ErrRefNotFound) s"
    by (simp add: GetRef_def shaped_def)
  with inv_mono [OF shaped, of "Suc g"] show ?thesis by auto
next
  case (Some p)
  from increment_held [OF shaped Some g] obtain s1 where i: "increment p s = Some s1"
    and i1: "shaped {} (Suc g) s1" by blast
  from shaped have m: "\<not> mu s" by (simp add: shaped_def)
  show ?thesis
  proof (cases "hamt_fails env")
    case True
    with m Some i have "GetRef env k s = Return (None, Some ErrHamt) s1" by (simp add: GetRef_def)
    with i1 show ?thesis by blast
  next
    case False
    obtain e s2 where fl: "Flush env (set_root k p s1) = (e, s2)"
      by (cases "Flush env (set_root k p s1)")
    with False m Some i have "GetRef env k s = Return (Some p, e) s2" by (simp add: GetRef_def)
    moreover have "shaped {} (Suc g) s2"
      using Flush_frame [OF fl] by (intro inv_frame [OF i1]) (simp_all add: set_root_def)
    ultimately show ?thesis by blast
  qed
qed

lemma run_gets_inv:
  "shaped {} g s \<Longrightarrow> int g + int (length gets) + 1 < 2 ^ 63 \<Longrightarrow>
     \<exists>s'. run_gets gets s = Some s' \<and> shaped {} (g + length gets) s'"
proof (induction gets arbitrary: g s)
  case Nil
  then show ?case by simp
next
  case (Cons x gets)
  obtain env k where x: "x = (env, k)" by (cases x)
  from Cons.prems(2) have "int g + 2 < 2 ^ 63" by simp
  from GetRef_inv [OF Cons.prems(1) this, of env k] obtain r s1
    where g1: "GetRef env k s = Return r s1" and i1: "shaped {} (Suc g) s1" by blast
  from Cons.prems(2) have "int (Suc g) + int (length gets) + 1 < 2 ^ 63" by simp
  from Cons.IH [OF i1 this] g1 show ?case by (simp add: x)
qed

text \<open>One eviction: the record \<open>e\<close> of the bucket of \<open>place\<close> goes.\<close>

lemma evict_one_state:
  assumes "s' = reclaim place e (unhold e s)"
  shows "heap s' = heap s" "Refs s' = AList.delete (PayloadCID (heap s e)) (Refs s)"
    "nodes_b s' = (nodes_b s)(place := (nodes_b s place)\<lparr>entries := removeAll e (entries (nodes_b s place))\<rparr>)"
    "blist s' = (if removeAll e (entries (nodes_b s place)) = [] then removeAll place (blist s)
                 else blist s)"
    "next_b s' = next_b s" "next_ref s' = next_ref s" "mu s' = mu s"
  by (simp_all add: assms reclaim_def unhold_def remBlistEntry_def Remove_def Let_def)

lemma shaped_evict_one:
  assumes sh: "shaped X g s" and pl: "place \<in> set (blist s)"
    and e: "e \<in> set (entries (nodes_b s place))"
    and s': "s' = reclaim place e (unhold e s)"
  shows "shaped X g s'"
proof -
  from sh have l: "linked s" and h: "held_ok X s" and f: "lfu g s" and m: "\<not> mu s"
    by (simp_all add: shaped_def)
  note st = evict_one_state [OF s']
  define E where "E a = entries (nodes_b s a)" for a
  define E' where "E' a = entries (nodes_b s' a)" for a
  have Ep: "E' place = removeAll e (E place)" and Eo: "\<And>a. a \<noteq> place \<Longrightarrow> E' a = E a"
    and ids: "\<And>a. id_b (nodes_b s' a) = id_b (nodes_b s a)"
    by (auto simp: E_def E'_def st)
  have B: "set (blist s') \<subseteq> set (blist s)" "distinct (blist s')"
    "\<And>a. a \<in> set (blist s) \<Longrightarrow> a \<noteq> place \<Longrightarrow> a \<in> set (blist s')"
    "place \<in> set (blist s') \<Longrightarrow> E' place \<noteq> []"
    "E' place \<noteq> [] \<Longrightarrow> place \<in> set (blist s')"
    using l pl by (auto simp: st linked_def E'_def distinct_removeAll split: if_splits)
  have hb: "\<And>a q. a \<in> set (blist s) \<Longrightarrow> q \<in> set (E a) \<Longrightarrow>
      map_of (Refs s) (PayloadCID (heap s q)) = Some q \<and> bucketNode (heap s q) = Some (BlistElem a)
      \<and> PayloadCID (heap s q) \<notin> X"
    using h unfolding held_ok_def E_def by blast
  have he: "map_of (Refs s) (PayloadCID (heap s e)) = Some e" "PayloadCID (heap s e) \<notin> X"
    using hb [OF pl] e by (simp_all add: E_def)
  have E'sub: "\<And>a q. q \<in> set (E' a) \<Longrightarrow> q \<in> set (E a) \<and> (a = place \<longrightarrow> q \<noteq> e)"
  proof -
    fix a q assume "q \<in> set (E' a)"
    then show "q \<in> set (E a) \<and> (a = place \<longrightarrow> q \<noteq> e)"
      by (cases "a = place") (auto simp: Ep Eo)
  qed
  have ne: "\<And>a q. a \<in> set (blist s) \<Longrightarrow> q \<in> set (E' a) \<Longrightarrow> q \<noteq> e"
  proof
    fix a q assume a: "a \<in> set (blist s)" "q \<in> set (E' a)" "q = e"
    with E'sub have "e \<in> set (E a)" "a = place \<longrightarrow> False" by blast+
    moreover from bucket_unique [OF h a(1) pl] e \<open>e \<in> set (E a)\<close> have "a = place"
      by (simp add: E_def)
    ultimately show False by blast
  qed
  have rk: "\<And>k q. map_of (Refs s') k = Some q \<longleftrightarrow> k \<noteq> PayloadCID (heap s e) \<and> map_of (Refs s) k = Some q"
    by (auto simp: st delete_conv)
  have "linked s'"
    unfolding linked_def
  proof (intro conjI ballI)
    show "distinct (blist s')" by (rule B)
  next
    fix a assume a: "a \<in> set (blist s')"
    then have ab: "a \<in> set (blist s)" using B(1) by blast
    with l have "a < next_b s" "distinct (E a)" "E a \<noteq> []" by (auto simp: linked_def E_def)
    then show "a < next_b s'" by (simp add: st)
    show "entries (nodes_b s' a) \<noteq> []"
      using B(4) a \<open>E a \<noteq> []\<close> Eo [of a] by (cases "a = place") (auto simp: E'_def)
    show "distinct (entries (nodes_b s' a))"
      using \<open>distinct (E a)\<close> by (cases "a = place") (simp_all add: E'_def [symmetric] Ep Eo distinct_removeAll)
  qed
  moreover have "held_ok X s'"
    unfolding held_ok_def
  proof (intro conjI allI impI ballI)
    show "distinct (map fst (Refs s'))" using h by (simp add: held_ok_def st distinct_delete)
  next
    fix k q assume kq: "map_of (Refs s') k = Some q"
    then have kne: "k \<noteq> PayloadCID (heap s e)" and kq0: "map_of (Refs s) k = Some q"
      by (simp_all add: rk)
    with h have ck: "PayloadCID (heap s q) = k" "q < next_ref s" by (auto simp: held_ok_def)
    then show "PayloadCID (heap s' q) = k" "q < next_ref s'" by (simp_all add: st)
    assume "k \<notin> X"
    with h kq0 obtain a where a: "a \<in> set (blist s)" "q \<in> set (E a)"
      unfolding held_ok_def E_def by blast
    have qe: "q \<noteq> e" using kne ck by auto
    show "\<exists>a\<in>set (blist s'). q \<in> set (entries (nodes_b s' a))"
    proof (cases "a = place")
      case True
      with a qe have "q \<in> set (E' place)" by (simp add: Ep)
      moreover then have "E' place \<noteq> []" by auto
      ultimately show ?thesis using B(5) unfolding E'_def by blast
    next
      case False
      with a B(3) have "a \<in> set (blist s')" by blast
      moreover have "q \<in> set (E' a)" using a False by (simp add: Eo)
      ultimately show ?thesis unfolding E'_def by blast
    qed
  next
    fix a q assume a: "a \<in> set (blist s')" "q \<in> set (entries (nodes_b s' a))"
    then have ab: "a \<in> set (blist s)" and qa: "q \<in> set (E' a)" using B(1) by (auto simp: E'_def)
    with E'sub ne have q: "q \<in> set (E a)" "q \<noteq> e" by blast+
    from hb [OF ab q(1)] have r: "map_of (Refs s) (PayloadCID (heap s q)) = Some q"
      "bucketNode (heap s q) = Some (BlistElem a)" "PayloadCID (heap s q) \<notin> X" by simp_all
    have "PayloadCID (heap s q) \<noteq> PayloadCID (heap s e)"
      using r(1) he(1) q(2) by auto
    with r show "map_of (Refs s') (PayloadCID (heap s' q)) = Some q"
      "bucketNode (heap s' q) = Some (BlistElem a)" "PayloadCID (heap s' q) \<notin> X"
      by (simp_all add: rk st(1))
  next
    fix k assume kX: "k \<in> X"
    with h obtain q where "map_of (Refs s) k = Some q" "bucketNode (heap s q) = None"
      unfolding held_ok_def by blast
    moreover have "k \<noteq> PayloadCID (heap s e)" using he(2) kX by blast
    ultimately show "\<exists>q. map_of (Refs s') k = Some q \<and> bucketNode (heap s' q) = None"
      by (auto simp: rk st(1))
  qed
  moreover have "lfu g s'"
    unfolding lfu_def
  proof (intro conjI ballI)
    have "sorted_wrt (\<lambda>a b. sint (id_b (nodes_b s a)) < sint (id_b (nodes_b s b))) (blist s')"
      using f by (auto simp: lfu_def st sorted_wrt_removeAll)
    then show "sorted_wrt (\<lambda>a b. sint (id_b (nodes_b s' a)) < sint (id_b (nodes_b s' b))) (blist s')"
      by (simp add: ids)
  next
    fix a assume "a \<in> set (blist s')"
    then have ab: "a \<in> set (blist s)" using B(1) by blast
    with f show "1 \<le> sint (id_b (nodes_b s' a))" "sint (id_b (nodes_b s' a)) \<le> 1 + int g"
      by (auto simp: lfu_def ids)
    fix q assume "q \<in> set (entries (nodes_b s' a))"
    then have "q \<in> set (E a)" using E'sub by (auto simp: E'_def)
    with f ab show "Freq (heap s' q) + 1 = id_b (nodes_b s' a)"
      by (auto simp: lfu_def E_def ids st(1))
  qed
  ultimately show ?thesis using m by (simp add: shaped_def st)
qed


lemma evict_entries_shaped:
  assumes ok: "\<forall>i. \<not> ms_delete_fails env i"
    and "shaped X g s" and "set es \<subseteq> set (entries (nodes_b s place))" and "distinct es"
    and "es \<noteq> [] \<longrightarrow> place \<in> set (blist s)"
    and "evict_entries env t place es (ev, s) = (fl, ev', s')"
  shows "shaped X g s' \<and> set (blist s) - {place} \<subseteq> set (blist s') \<and> set (blist s') \<subseteq> set (blist s)"
  using assms(2-)
proof (induction es arbitrary: ev s)
  case Nil
  then show ?case by auto
next
  case (Cons e es)
  let ?s1 = "reclaim place e (unhold e s)"
  note st = evict_one_state [of ?s1 place e s, OF refl]
  from Cons.prems have pl: "place \<in> set (blist s)" and e: "e \<in> set (entries (nodes_b s place))"
    by simp_all
  have sh1: "shaped X g ?s1" by (rule shaped_evict_one [OF Cons.prems(1) pl e refl])
  have bl: "set (blist s) - {place} \<subseteq> set (blist ?s1)" "set (blist ?s1) \<subseteq> set (blist s)"
    by (auto simp: st)
  show ?case
  proof (cases "t \<le> ev + PayloadSize (heap s e)")
    case True
    with Cons.prems(5) ok have "s' = ?s1" by simp
    with sh1 bl show ?thesis by simp
  next
    case False
    with Cons.prems(5) ok
    have r: "evict_entries env t place es (ev + PayloadSize (heap s e), ?s1) = (fl, ev', s')"
      by simp
    have sub: "set es \<subseteq> set (entries (nodes_b ?s1 place))"
      using Cons.prems(2,3) by (auto simp: st)
    have "es \<noteq> [] \<longrightarrow> place \<in> set (blist ?s1)"
    proof
      assume "es \<noteq> []"
      then obtain x where "x \<in> set es" by (cases es) auto
      with sub have "x \<in> set (removeAll e (entries (nodes_b s place)))" by (auto simp: st)
      then have "removeAll e (entries (nodes_b s place)) \<noteq> []" by (metis empty_iff empty_set)
      with pl show "place \<in> set (blist ?s1)" by (simp add: st)
    qed
    from Cons.IH [OF sh1 sub _ this r] Cons.prems(3) bl show ?thesis by auto
  qed
qed

lemma evict_walk_shaped:
  assumes ok: "\<forall>i. \<not> ms_delete_fails env i" and vi: "valid_iter (iter env)"
    and "shaped X g s" and "set l \<subseteq> set (blist s)" and "distinct l"
    and "evict_walk env t l (ev, s) = (ev', s')"
  shows "shaped X g s'"
  using assms(3-)
proof (induction l arbitrary: ev s)
  case Nil
  then show ?case by simp
next
  case (Cons place l)
  let ?es = "iter env (entries (nodes_b s place))"
  obtain fl ev1 s1 where e: "evict_entries env t place ?es (ev, s) = (fl, ev1, s1)"
    by (metis prod_cases3)
  from Cons.prems have pl: "place \<in> set (blist s)" by simp
  with Cons.prems(1) have "distinct (entries (nodes_b s place))"
    by (simp add: shaped_def linked_def)
  with vi have es: "distinct ?es" "set ?es = set (entries (nodes_b s place))"
    by (simp_all add: valid_iter_def)
  from evict_entries_shaped [OF ok Cons.prems(1) _ es(1) _ e] es(2) pl
  have sh1: "shaped X g s1" and bl: "set (blist s) - {place} \<subseteq> set (blist s1)" by simp_all
  show ?case
  proof (cases "fl \<or> place \<notin> set (blist s1)")
    case True
    with Cons.prems(4) e have "s' = s1" by (auto split: if_splits)
    with sh1 show ?thesis by simp
  next
    case False
    with Cons.prems(4) e have r: "evict_walk env t l (ev1, s1) = (ev', s')" by simp
    from Cons.prems(2,3) bl have "set l \<subseteq> set (blist s1)" by auto
    from Cons.IH [OF sh1 this _ r] Cons.prems(3) show ?thesis by simp
  qed
qed

lemma evict_shaped:
  assumes "reliable env" and "shaped X g s"
  shows "shaped X g (snd (evict env t s))"
proof -
  obtain ev' s' where e: "evict_walk env t (blist s) (0, s) = (ev', s')"
    by (cases "evict_walk env t (blist s) (0, s)")
  from assms(2) have "distinct (blist s)" by (simp add: shaped_def linked_def)
  from evict_walk_shaped [OF _ _ assms(2) subset_refl this e] assms(1) e show ?thesis
    by (simp add: evict_def reliable_def)
qed

lemma update_fresh_keys:
  "map_of al k = None \<Longrightarrow> distinct (map fst al) \<Longrightarrow> distinct (map fst (AList.update k v al))"
  by (simp add: distinct_update)

text \<open>
  The first half of \<open>SetRef\<close> for a record that is not linked, under a content id
  that is not held: the key is held and waits for \<open>increment\<close>.
\<close>

lemma admit_shaped:
  assumes rel: "reliable env" and sh: "shaped {} g s"
    and fresh: "map_of (Refs s) (PayloadCID (heap s p)) = None"
    and un: "bucketNode (heap s p) = None" and al: "p < next_ref s"
  shows "shaped {PayloadCID (heap s p)} g (admit env p s)"
proof -
  let ?c = "PayloadCID (heap s p)"
  let ?s1 = "s\<lparr>Refs := AList.update ?c p (Refs s), size_idx := size_idx s + PayloadSize (heap s p)\<rparr>"
  from sh have l: "linked s" and h: "held_ok {} s" and f: "lfu g s" and m: "\<not> mu s"
    by (simp_all add: shaped_def)
  have "held_ok {?c} ?s1"
    unfolding held_ok_def
  proof (intro conjI allI impI ballI)
    show "distinct (map fst (Refs ?s1))" using h by (simp add: held_ok_def distinct_update)
  next
    fix k q assume kq: "map_of (Refs ?s1) k = Some q"
    then have "k = ?c \<and> q = p \<or> map_of (Refs s) k = Some q"
      by (auto simp: update_conv' split: if_splits)
    with h al show "PayloadCID (heap ?s1 q) = k" "q < next_ref ?s1" by (auto simp: held_ok_def)
    assume "k \<notin> {?c}"
    with kq have "map_of (Refs s) k = Some q" by (auto simp: update_conv' split: if_splits)
    with h show "\<exists>e\<in>set (blist ?s1). q \<in> set (entries (nodes_b ?s1 e))"
      by (auto simp: held_ok_def)
  next
    fix e q assume "e \<in> set (blist ?s1)" "q \<in> set (entries (nodes_b ?s1 e))"
    with h have r: "map_of (Refs s) (PayloadCID (heap s q)) = Some q"
      "bucketNode (heap s q) = Some (BlistElem e)" by (auto simp: held_ok_def)
    with fresh have ne: "PayloadCID (heap s q) \<noteq> ?c" by auto
    with r show "map_of (Refs ?s1) (PayloadCID (heap ?s1 q)) = Some q"
      "bucketNode (heap ?s1 q) = Some (BlistElem e)" "PayloadCID (heap ?s1 q) \<notin> {?c}"
      by (simp_all add: update_conv')
  next
    fix k assume "k \<in> {?c}"
    with un show "\<exists>q. map_of (Refs ?s1) k = Some q \<and> bucketNode (heap ?s1 q) = None"
      by (auto simp: update_conv')
  qed
  moreover have "linked ?s1" "lfu g ?s1" "\<not> mu ?s1"
    using l f m by (simp_all add: linked_def lfu_def)
  ultimately have sh1: "shaped {?c} g ?s1" by (simp add: shaped_def)
  show ?thesis
    using sh1 evict_shaped [OF rel sh1] by (simp add: admit_def Let_def)
qed

text \<open>\<open>increment\<close> of the record that waits, after insertions only.\<close>

lemma increment_new_shaped:
  assumes sh: "shaped {c} 0 s" and k: "map_of (Refs s) c = Some p" and z: "Freq (heap s p) = 0"
  shows "\<exists>s'. increment p s = Some s' \<and> shaped {} 0 s'"
proof -
  from sh have l: "linked s" and h: "held_ok {c} s" and f: "lfu 0 s" and m: "\<not> mu s"
    by (simp_all add: shaped_def)
  from h k have un: "bucketNode (heap s p) = None" and cp: "PayloadCID (heap s p) = c"
    by (auto simp: held_ok_def)
  have hb: "\<And>e q. e \<in> set (blist s) \<Longrightarrow> q \<in> set (entries (nodes_b s e)) \<Longrightarrow>
      map_of (Refs s) (PayloadCID (heap s q)) = Some q \<and> bucketNode (heap s q) = Some (BlistElem e)"
    using h unfolding held_ok_def by blast
  have pnot: "\<And>e. e \<in> set (blist s) \<Longrightarrow> p \<notin> set (entries (nodes_b s e))"
    using hb un by fastforce
  have held: "\<And>k' q. map_of (Refs s) k' = Some q \<Longrightarrow> PayloadCID (heap s q) = k' \<and> q < next_ref s"
    using h unfolding held_ok_def by blast
  have others: "\<And>k' q. map_of (Refs s) k' = Some q \<Longrightarrow> k' \<noteq> c \<Longrightarrow>
      q \<noteq> p \<and> (\<exists>e\<in>set (blist s). q \<in> set (entries (nodes_b s e)))"
  proof -
    fix k' q assume a: "map_of (Refs s) k' = Some q" "k' \<noteq> c"
    with h have "\<exists>e\<in>set (blist s). q \<in> set (entries (nodes_b s e))"
      unfolding held_ok_def by blast
    moreover from held [OF a(1)] cp a(2) have "q \<noteq> p" by auto
    ultimately show "q \<noteq> p \<and> (\<exists>e\<in>set (blist s). q \<in> set (entries (nodes_b s e)))" by simp
  qed
  show ?thesis
  proof (cases "blist s = []")
    case True
    let ?n = "next_b s"
    define s' where "s' = place_ref p False 1 ?n (snd (PushFront_b (newBucket 1) s))"
    have inc: "increment p s = Some s'"
      using un True
      by (simp add: increment_def target_new_def Back_def needs_bucket_def PushFront_b_def s'_def)
    have st: "blist s' = [?n]" "nodes_b s' ?n = \<lparr>id_b = 1, entries = [p]\<rparr>" "next_b s' = Suc ?n"
      "heap s' = (heap s)(p := (heap s p)\<lparr>BucketID := 1, bucketNode := Some (BlistElem ?n)\<rparr>)"
      "Refs s' = Refs s" "next_ref s' = next_ref s" "mu s' = mu s"
      using True
      by (simp_all add: s'_def place_ref_def PushFront_b_def newBucket_def put_entry_def)
    have only: "\<And>k' q. map_of (Refs s) k' = Some q \<Longrightarrow> k' = c \<and> q = p"
      using others True k by (metis empty_iff empty_set option.inject)
    have "linked s'" by (simp add: linked_def st)
    moreover have "held_ok {} s'"
      unfolding held_ok_def
    proof (intro conjI allI impI ballI)
      show "distinct (map fst (Refs s'))" using h by (simp add: held_ok_def st)
    next
      fix k' q assume "map_of (Refs s') k' = Some q"
      then have "k' = c" "q = p" using only by (simp_all add: st)
      then show "PayloadCID (heap s' q) = k'" "q < next_ref s'"
        "\<exists>e\<in>set (blist s'). q \<in> set (entries (nodes_b s' e))"
        using cp held [OF k] by (simp_all add: st)
    next
      fix e q assume "e \<in> set (blist s')" "q \<in> set (entries (nodes_b s' e))"
      then have "e = ?n" "q = p" by (simp_all add: st)
      then show "map_of (Refs s') (PayloadCID (heap s' q)) = Some q"
        "bucketNode (heap s' q) = Some (BlistElem e)" "PayloadCID (heap s' q) \<notin> {}"
        using cp k by (simp_all add: st)
    qed simp
    moreover have "lfu 0 s'" using z by (simp add: lfu_def st)
    ultimately show ?thesis using inc m by (auto simp: shaped_def st)
  next
    case False
    let ?b = "last (blist s)"
    have bb: "?b \<in> set (blist s)" using False by simp
    with f have "sint (id_b (nodes_b s ?b)) = 1" by (auto simp: lfu_def)
    then have id1: "id_b (nodes_b s ?b) = 1" by (rule sint_eq_1)
    define s' where "s' = place_ref p False 1 ?b s"
    have inc: "increment p s = Some s'"
      using un False id1
      by (simp add: increment_def target_new_def Back_def needs_bucket_def s'_def)
    have st: "blist s' = blist s" "next_b s' = next_b s"
      "nodes_b s' = (nodes_b s)(?b := (nodes_b s ?b)\<lparr>entries := entries (nodes_b s ?b) @ [p]\<rparr>)"
      "heap s' = (heap s)(p := (heap s p)\<lparr>BucketID := 1, bucketNode := Some (BlistElem ?b)\<rparr>)"
      "Refs s' = Refs s" "next_ref s' = next_ref s" "mu s' = mu s"
      using pnot [OF bb]
      by (simp_all add: s'_def place_ref_def put_entry_def)
    have E': "\<And>e q. q \<in> set (entries (nodes_b s' e)) \<longleftrightarrow>
        q \<in> set (entries (nodes_b s e)) \<or> (e = ?b \<and> q = p)"
      by (auto simp: st)
    have "linked s'"
      using l pnot [OF bb] by (auto simp: linked_def st)
    moreover have "held_ok {} s'"
      unfolding held_ok_def
    proof (intro conjI allI impI ballI)
      show "distinct (map fst (Refs s'))" using h by (simp add: held_ok_def st)
    next
      fix k' q assume kq: "map_of (Refs s') k' = Some q"
      then have kq0: "map_of (Refs s) k' = Some q" by (simp add: st)
      from held [OF kq0] show "PayloadCID (heap s' q) = k'" "q < next_ref s'"
        by (auto simp: st)
      show "\<exists>e\<in>set (blist s'). q \<in> set (entries (nodes_b s' e))"
      proof (cases "k' = c")
        case True
        with kq0 k have "q = p" by simp
        with bb show ?thesis unfolding E' st(1) by blast
      next
        case False
        from others [OF kq0 False] show ?thesis unfolding E' st(1) by blast
      qed
    next
      fix e q assume e: "e \<in> set (blist s')" "q \<in> set (entries (nodes_b s' e))"
      then have eb: "e \<in> set (blist s)" by (simp add: st)
      have "map_of (Refs s') (PayloadCID (heap s' q)) = Some q \<and>
          bucketNode (heap s' q) = Some (BlistElem e)"
      proof (cases "q = p")
        case True
        with e(2) pnot [OF eb] have "e = ?b" by (simp add: E')
        with True cp k show ?thesis by (simp add: st)
      next
        case False
        with e(2) have "q \<in> set (entries (nodes_b s e))" by (simp add: E')
        from hb [OF eb this] False show ?thesis by (simp add: st)
      qed
      then show "map_of (Refs s') (PayloadCID (heap s' q)) = Some q"
        "bucketNode (heap s' q) = Some (BlistElem e)" "PayloadCID (heap s' q) \<notin> {}"
        by simp_all
    qed simp
    moreover have "lfu 0 s'"
      unfolding lfu_def
    proof (intro conjI ballI)
      have "\<And>e. id_b (nodes_b s' e) = id_b (nodes_b s e)" by (simp add: st)
      then show "sorted_wrt (\<lambda>a b. sint (id_b (nodes_b s' a)) < sint (id_b (nodes_b s' b))) (blist s')"
        using f by (simp add: lfu_def st(1))
    next
      fix e assume e: "e \<in> set (blist s')"
      then have eb: "e \<in> set (blist s)" by (simp add: st)
      with f show "1 \<le> sint (id_b (nodes_b s' e))" "sint (id_b (nodes_b s' e)) \<le> 1 + int 0"
        by (auto simp: lfu_def st)
      fix q assume q: "q \<in> set (entries (nodes_b s' e))"
      show "Freq (heap s' q) + 1 = id_b (nodes_b s' e)"
      proof (cases "q = p")
        case True
        with q pnot [OF eb] have "e = ?b" by (simp add: E')
        with True z id1 show ?thesis by (simp add: st)
      next
        case False
        with q have "q \<in> set (entries (nodes_b s e))" by (simp add: E')
        with f eb False show ?thesis by (auto simp: lfu_def st)
      qed
    qed
    ultimately show ?thesis using inc m by (auto simp: shaped_def st)
  qed
qed

lemma shaped_empty: "NewIndex [WithBounds u l] = Some s0 \<Longrightarrow> shaped {} 0 s0 \<and> Refs s0 = []"
  by (auto simp: NewIndex_def WithBounds_def emptyIndex_def shaped_def linked_def held_ok_def lfu_def
      split: if_splits)

lemma new_ref_shaped:
  assumes sh: "shaped {} g s" and nr: "new_ref c n i s = (p, s0)"
  shows "shaped {} g s0" "p < next_ref s0" "Refs s0 = Refs s"
    "heap s0 p = zeroRef\<lparr>PayloadCID := c, PayloadSize := n, StoreID := i\<rparr>" "\<not> mu s0"
proof -
  from sh have l: "linked s" and h: "held_ok {} s" and f: "lfu g s" and m: "\<not> mu s"
    by (simp_all add: shaped_def)
  from nr have p: "p = next_ref s"
    and st: "heap s0 = (heap s)(p := zeroRef\<lparr>PayloadCID := c, PayloadSize := n, StoreID := i\<rparr>)"
      "next_ref s0 = Suc p" "Refs s0 = Refs s" "blist s0 = blist s" "nodes_b s0 = nodes_b s"
      "next_b s0 = next_b s" "mu s0 = mu s"
    by (auto simp: new_ref_def)
  have held: "\<And>k q. map_of (Refs s) k = Some q \<Longrightarrow> q \<noteq> p"
    using h p unfolding held_ok_def by fastforce
  have ent: "\<And>e q. e \<in> set (blist s) \<Longrightarrow> q \<in> set (entries (nodes_b s e)) \<Longrightarrow> q \<noteq> p"
  proof -
    fix e q assume "e \<in> set (blist s)" "q \<in> set (entries (nodes_b s e))"
    with h have "map_of (Refs s) (PayloadCID (heap s q)) = Some q" unfolding held_ok_def by blast
    then show "q \<noteq> p" by (rule held)
  qed
  show "p < next_ref s0" "Refs s0 = Refs s" "\<not> mu s0"
    "heap s0 p = zeroRef\<lparr>PayloadCID := c, PayloadSize := n, StoreID := i\<rparr>"
    using m by (simp_all add: st)
  have "linked s0" using l by (simp add: linked_def st)
  moreover have "held_ok {} s0"
    unfolding held_ok_def
  proof (intro conjI allI impI ballI)
    show "distinct (map fst (Refs s0))" using h by (simp add: held_ok_def st)
  next
    fix k q assume "map_of (Refs s0) k = Some q"
    then have kq: "map_of (Refs s) k = Some q" by (simp add: st)
    with h have "PayloadCID (heap s q) = k" "q < next_ref s"
      "\<exists>e\<in>set (blist s). q \<in> set (entries (nodes_b s e))"
      unfolding held_ok_def by blast+
    with held [OF kq] show "PayloadCID (heap s0 q) = k" "q < next_ref s0"
      "\<exists>e\<in>set (blist s0). q \<in> set (entries (nodes_b s0 e))"
      by (simp_all add: st p)
  next
    fix e q assume "e \<in> set (blist s0)" "q \<in> set (entries (nodes_b s0 e))"
    then have e: "e \<in> set (blist s)" "q \<in> set (entries (nodes_b s e))" by (simp_all add: st)
    with h have "map_of (Refs s) (PayloadCID (heap s q)) = Some q"
      "bucketNode (heap s q) = Some (BlistElem e)" unfolding held_ok_def by blast+
    with ent [OF e] show "map_of (Refs s0) (PayloadCID (heap s0 q)) = Some q"
      "bucketNode (heap s0 q) = Some (BlistElem e)" "PayloadCID (heap s0 q) \<notin> {}"
      by (simp_all add: st)
  qed simp
  moreover have "lfu g s0"
    unfolding lfu_def
  proof (intro conjI ballI)
    show "sorted_wrt (\<lambda>a b. sint (id_b (nodes_b s0 a)) < sint (id_b (nodes_b s0 b))) (blist s0)"
      using f by (simp add: lfu_def st)
  next
    fix e assume e: "e \<in> set (blist s0)"
    with f show "1 \<le> sint (id_b (nodes_b s0 e))" "sint (id_b (nodes_b s0 e)) \<le> 1 + int g"
      by (auto simp: lfu_def st)
    fix q assume q: "q \<in> set (entries (nodes_b s0 e))"
    with e ent have "q \<noteq> p" by (simp add: st)
    with f e q show "Freq (heap s0 q) + 1 = id_b (nodes_b s0 e)" by (auto simp: lfu_def st)
  qed
  ultimately show "shaped {} g s0" using m by (simp add: shaped_def st)
qed

text \<open>\<open>SetRef\<close> of a new record under a content id that is not held, after insertions only.\<close>

lemma set_new_shaped:
  assumes rel: "reliable env" and sh: "shaped {} 0 s" and fresh: "map_of (Refs s) c = None"
  shows "\<exists>e s'. set_new env c n i s = Return e s' \<and> shaped {} 0 s' \<and>
           (\<forall>k. map_of (Refs s') k \<noteq> None \<longrightarrow> k = c \<or> map_of (Refs s) k \<noteq> None)"
proof -
  obtain p s0 where nr: "new_ref c n i s = (p, s0)" by (cases "new_ref c n i s")
  note n0 = new_ref_shaped [OF sh nr]
  have hp: "PayloadCID (heap s0 p) = c" "bucketNode (heap s0 p) = None" "Freq (heap s0 p) = 0"
    by (simp_all add: n0(4) zeroRef_def)
  have fr0: "map_of (Refs s0) (PayloadCID (heap s0 p)) = None" using fresh by (simp add: hp n0(3))
  from admit_shaped [OF rel n0(1) fr0 hp(2) n0(2)]
  have sa: "shaped {c} 0 (admit env p s0)" by (simp add: hp)
  then obtain q where "map_of (Refs (admit env p s0)) c = Some q"
    by (auto simp: shaped_def held_ok_def)
  moreover from admit_Refs [OF this] have "q = p" by (simp add: hp)
  ultimately have kp: "map_of (Refs (admit env p s0)) c = Some p" by simp
  from increment_new_shaped [OF sa kp] hp(3)
  obtain s3 where i: "increment p (admit env p s0) = Some s3" and s3: "shaped {} 0 s3" by auto
  from SetRef_returns [OF n0(5) i] obtain e s' where r: "SetRef env p s0 = Return e s'"
    and fr: "Refs s' = Refs s3" "heap s' = heap s3" "blist s' = blist s3" "nodes_b s' = nodes_b s3"
      "mu s' = mu s3" "next_ref s' = next_ref s3" "next_b s' = next_b s3"
    by blast
  have "shaped {} 0 s'" by (rule inv_frame [OF s3]) (simp_all add: fr)
  moreover have "set_new env c n i s = Return e s'" using nr r by (simp add: set_new_def)
  moreover have "\<forall>k. map_of (Refs s') k \<noteq> None \<longrightarrow> k = c \<or> map_of (Refs s) k \<noteq> None"
  proof (intro allI impI)
    fix k assume "map_of (Refs s') k \<noteq> None"
    then obtain q where "map_of (Refs (admit env p s0)) k = Some q"
      using increment_same_rest [OF i] by (auto simp: fr)
    from admit_Refs [OF this] show "k = c \<or> map_of (Refs s) k \<noteq> None"
      by (auto simp: hp n0(3) split: if_splits)
  qed
  ultimately show ?thesis by blast
qed

lemma run_sets_shaped:
  assumes "\<forall>x\<in>set sets. reliable (fst x)" and "distinct (map (\<lambda>x. fst (snd x)) sets)"
    and "shaped {} 0 s" and "\<forall>x\<in>set sets. map_of (Refs s) (fst (snd x)) = None"
  shows "\<exists>s'. run_sets sets s = Some s' \<and> shaped {} 0 s'"
  using assms
proof (induction sets arbitrary: s)
  case Nil
  then show ?case by simp
next
  case (Cons x sets)
  obtain env c n i where x: "x = (env, c, n, i)" by (cases x)
  from Cons.prems have rel: "reliable env" and fresh: "map_of (Refs s) c = None"
    by (simp_all add: x)
  from set_new_shaped [OF rel Cons.prems(3) fresh, of n i] obtain e s1
    where r: "set_new env c n i s = Return e s1" and s1: "shaped {} 0 s1"
      and keys: "\<forall>k. map_of (Refs s1) k \<noteq> None \<longrightarrow> k = c \<or> map_of (Refs s) k \<noteq> None"
    by blast
  have "\<forall>y\<in>set sets. map_of (Refs s1) (fst (snd y)) = None"
  proof
    fix y assume y: "y \<in> set sets"
    with Cons.prems(2) have "fst (snd y) \<noteq> c" by (auto simp: x)
    moreover from Cons.prems(4) y have "map_of (Refs s) (fst (snd y)) = None" by simp
    ultimately show "map_of (Refs s1) (fst (snd y)) = None" using keys by blast
  qed
  with Cons.IH [of s1] Cons.prems(1,2) s1 r show ?case by (simp add: x)
qed

lemma sorted_wrt_concat_map_in:
  assumes "sorted_wrt Q l" and "\<forall>e\<in>set l. sorted_wrt R (g e)"
    and "\<forall>e\<in>set l. \<forall>e'\<in>set l. Q e e' \<longrightarrow> (\<forall>x\<in>set (g e). \<forall>y\<in>set (g e'). R x y)"
  shows "sorted_wrt R (concat (map g l))"
  using assms by (induction l) (auto simp: sorted_wrt_append)

lemma sorted_wrt_all: "(\<forall>x\<in>set xs. \<forall>y\<in>set xs. R x y) \<Longrightarrow> sorted_wrt R xs"
  by (induction xs) auto

lemma sint_pred:
  fixes w i :: "64 word"
  assumes "w + 1 = i" and "1 \<le> sint i"
  shows "sint w = sint i - 1"
proof (cases "sint w < 2 ^ 63 - 1")
  case True
  from sint_plus_1 [OF True] assms(1) show ?thesis by simp
next
  case False
  moreover have "sint w < 2 ^ 63" using sint_lt [of w] by simp
  ultimately have "sint w = 2 ^ 63 - 1" by simp
  then have "sint (w + 1) = signed_take_bit 63 (2 ^ 63 - 1 + 1 :: int)"
    by (simp add: sint_word_ariths)
  also have "\<dots> = - (2 ^ 63)" by (simp add: signed_take_bit_eq_take_bit_shift take_bit_eq_mod)
  finally show ?thesis using assms by simp
qed

text \<open>\<open>ListRefs\<close> in a state of that shape.\<close>

lemma ListRefs_shaped:
  assumes sh: "shaped {} g s" and vi: "valid_iter (iter env)"
  shows "ListRefs env s = Return (map Some (walk_b env s), None) s \<and>
         distinct (walk_b env s) \<and> set (walk_b env s) = snd ` set (Refs s) \<and>
         sorted_wrt (\<lambda>a b. sint (Freq (heap s a)) \<le> sint (Freq (heap s b))) (walk_b env s)"
proof -
  from sh have l: "linked s" and h: "held_ok {} s" and f: "lfu g s" and m: "\<not> mu s"
    by (simp_all add: shaped_def)
  define G where "G e = iter env (entries (nodes_b s e))" for e
  have "G = (\<lambda>e. iter env (entries (nodes_b s e)))" by (rule ext) (simp add: G_def)
  then have w: "walk_b env s = concat (map G (blist s))" by (simp add: walk_b_def)
  have G: "\<And>e. e \<in> set (blist s) \<Longrightarrow> distinct (G e) \<and> set (G e) = set (entries (nodes_b s e))"
    using l vi by (simp add: linked_def valid_iter_def G_def)
  have dk: "distinct (map fst (Refs s))" using h by (simp add: held_ok_def)
  have d: "distinct (walk_b env s)"
    unfolding w
  proof (rule distinct_concat_map)
    show "distinct (blist s)" using l by (simp add: linked_def)
    show "\<forall>e\<in>set (blist s). distinct (G e)" using G by simp
    show "\<forall>e\<in>set (blist s). \<forall>e'\<in>set (blist s). e \<noteq> e' \<longrightarrow> set (G e) \<inter> set (G e') = {}"
      using G bucket_unique [OF h] by (simp add: disjoint_iff) blast
  qed
  have sw: "set (walk_b env s) = snd ` set (Refs s)"
  proof (intro set_eqI iffI)
    fix q assume "q \<in> set (walk_b env s)"
    then obtain e where e: "e \<in> set (blist s)" "q \<in> set (entries (nodes_b s e))"
      using G by (auto simp: w)
    with h have "map_of (Refs s) (PayloadCID (heap s q)) = Some q" unfolding held_ok_def by blast
    then have "(PayloadCID (heap s q), q) \<in> set (Refs s)" by (rule map_of_SomeD)
    then show "q \<in> snd ` set (Refs s)" by force
  next
    fix q assume "q \<in> snd ` set (Refs s)"
    then obtain k where "(k, q) \<in> set (Refs s)" by auto
    with dk have "map_of (Refs s) k = Some q" by simp
    with h obtain e where "e \<in> set (blist s)" "q \<in> set (entries (nodes_b s e))"
      unfolding held_ok_def by blast
    then show "q \<in> set (walk_b env s)" using G by (auto simp: w)
  qed
  have "inj_on snd (set (Refs s))"
  proof (rule inj_onI)
    fix x y assume xy: "x \<in> set (Refs s)" "y \<in> set (Refs s)" "snd x = snd y"
    from xy(1,2) have "(fst x, snd x) \<in> set (Refs s)" "(fst y, snd y) \<in> set (Refs s)"
      by (simp_all only: prod.collapse)
    with dk have "map_of (Refs s) (fst x) = Some (snd x)" "map_of (Refs s) (fst y) = Some (snd y)"
      by (simp_all only: map_of_eq_Some_iff)
    with h have "PayloadCID (heap s (snd x)) = fst x" "PayloadCID (heap s (snd y)) = fst y"
      unfolding held_ok_def by blast+
    with xy(3) show "x = y" by (simp add: prod_eq_iff)
  qed
  moreover have "distinct (Refs s)" using dk by (simp add: distinct_map)
  ultimately have "distinct (map snd (Refs s))" by (simp add: distinct_map)
  then have "card (snd ` set (Refs s)) = length (Refs s)"
    using distinct_card [of "map snd (Refs s)"] by simp
  moreover have "card (set (walk_b env s)) = length (walk_b env s)" using d by (rule distinct_card)
  ultimately have len: "length (walk_b env s) = length (Refs s)" using sw by simp
  have r: "ListRefs env s = Return (map Some (walk_b env s), None) s"
    using m len by (simp add: ListRefs_def Let_def)
  have fq: "\<And>e q. e \<in> set (blist s) \<Longrightarrow> q \<in> set (G e) \<Longrightarrow>
      sint (Freq (heap s q)) = sint (id_b (nodes_b s e)) - 1"
  proof -
    fix e q assume e: "e \<in> set (blist s)" "q \<in> set (G e)"
    with G f have "Freq (heap s q) + 1 = id_b (nodes_b s e)" "1 \<le> sint (id_b (nodes_b s e))"
      by (auto simp: lfu_def)
    then show "sint (Freq (heap s q)) = sint (id_b (nodes_b s e)) - 1" by (rule sint_pred)
  qed
  have "sorted_wrt (\<lambda>a b. sint (Freq (heap s a)) \<le> sint (Freq (heap s b))) (walk_b env s)"
    unfolding w
  proof (rule sorted_wrt_concat_map_in
      [where Q = "\<lambda>a b. sint (id_b (nodes_b s a)) < sint (id_b (nodes_b s b))"])
    show "sorted_wrt (\<lambda>a b. sint (id_b (nodes_b s a)) < sint (id_b (nodes_b s b))) (blist s)"
      using f by (simp add: lfu_def)
    show "\<forall>e\<in>set (blist s). sorted_wrt (\<lambda>a b. sint (Freq (heap s a)) \<le> sint (Freq (heap s b))) (G e)"
      using fq by (auto intro!: sorted_wrt_all)
    show "\<forall>e\<in>set (blist s). \<forall>e'\<in>set (blist s).
        sint (id_b (nodes_b s e)) < sint (id_b (nodes_b s e')) \<longrightarrow>
        (\<forall>x\<in>set (G e). \<forall>y\<in>set (G e'). sint (Freq (heap s x)) \<le> sint (Freq (heap s y)))"
      using fq by auto
  qed
  with r d sw show ?thesis by simp
qed

text \<open>
  Claim C2 as amended. On an index just made, after any sequence of \<open>SetRef\<close> of new
  records with pairwise different content ids, followed by any sequence of fewer than
  \<open>2^63 - 1\<close> calls of \<open>GetRef\<close> (whatever they return), with no sub-store deletion failing
  in an eviction, \<open>ListRefs\<close> returns; what it returns are exactly the held records, each
  once, in non-decreasing order of frequency. The order among records of one frequency
  is the order in which a Go map is visited, which is any order.
\<close>

theorem C2_list_refs_by_frequency:
  assumes "NewIndex [WithBounds u l] = Some s0"
    and "\<forall>x\<in>set sets. reliable (fst x)" and "distinct (map (\<lambda>x. fst (snd x)) sets)"
    and "int (length gets) + 1 < 2 ^ 63"
    and "valid_iter (iter env)"
  shows "\<exists>s1 s2 w. run_sets sets s0 = Some s1 \<and> run_gets gets s1 = Some s2 \<and>
           ListRefs env s2 = Return (map Some w, None) s2 \<and>
           distinct w \<and> set w = snd ` set (Refs s2) \<and>
           sorted_wrt (\<lambda>a b. sint (Freq (heap s2 a)) \<le> sint (Freq (heap s2 b))) w"
proof -
  from shaped_empty [OF assms(1)] have s0: "shaped {} 0 s0" "Refs s0 = []" by simp_all
  from run_sets_shaped [OF assms(2,3) s0(1)] s0(2)
  obtain s1 where r1: "run_sets sets s0 = Some s1" and s1: "shaped {} 0 s1" by auto
  from run_gets_inv [OF s1, of gets] assms(4)
  obtain s2 where r2: "run_gets gets s1 = Some s2" and s2: "shaped {} (length gets) s2" by auto
  from ListRefs_shaped [OF s2 assms(5)] r1 r2 show ?thesis by blast
qed

text \<open>
  Claim C2 as amended, at scenario S2 of the specification: \<open>SetRef\<close> of A and of B,
  two reads of A and one of B; under an iteration in the opposite order of insertion
  \<open>ListRefs\<close> returns B (frequency 1) and then A (frequency 2).
\<close>

theorem C2_witness:
  "(\<exists>s1 s2 w. run_sets [(env_ok, ''A'', 100, 1), (env_ok, ''B'', 100, 2)] emptyIndex = Some s1 \<and>
       run_gets [(env_ok, ''A''), (env_ok, ''A''), (env_ok, ''B'')] s1 = Some s2 \<and>
       ListRefs env_rev s2 = Return (map Some w, None) s2 \<and>
       distinct w \<and> set w = snd ` set (Refs s2) \<and>
       sorted_wrt (\<lambda>a b. sint (Freq (heap s2 a)) \<le> sint (Freq (heap s2 b))) w) \<and>
   map_option (listed env_rev)
     (case run_sets [(env_ok, ''A'', 100, 1), (env_ok, ''B'', 100, 2)] emptyIndex of
        None \<Rightarrow> None
      | Some s1 \<Rightarrow> run_gets [(env_ok, ''A''), (env_ok, ''A''), (env_ok, ''B'')] s1)
     = Some (Some [Some (''B'', 1), Some (''A'', 2)])"
proof -
  have h1: "NewIndex [WithBounds 0 0] = Some emptyIndex"
    by (simp add: NewIndex_def WithBounds_def emptyIndex_def)
  have h2: "\<forall>x\<in>set [(env_ok, ''A'', 100 :: int64, 1 :: uint64), (env_ok, ''B'', 100, 2)]. reliable (fst x)"
    by (simp add: reliable_def valid_iter_def env_ok_def)
  have h3: "distinct (map (\<lambda>x. fst (snd x)) [(env_ok, ''A'', 100 :: int64, 1 :: uint64), (env_ok, ''B'', 100, 2)])"
    by simp
  have h4: "int (length [(env_ok, ''A''), (env_ok, ''A''), (env_ok, ''B'')]) + 1 < 2 ^ 63"
    by simp
  have h5: "valid_iter (iter env_rev)" by (simp add: valid_iter_def env_rev_def)
  have ev: "map_option (listed env_rev)
     (case run_sets [(env_ok, ''A'', 100, 1), (env_ok, ''B'', 100, 2)] emptyIndex of
        None \<Rightarrow> None
      | Some s1 \<Rightarrow> run_gets [(env_ok, ''A''), (env_ok, ''A''), (env_ok, ''B'')] s1)
     = Some (Some [Some (''B'', 1), Some (''A'', 2)])"
    by (simp add: model_defs)
  from C2_list_refs_by_frequency [OF h1 h2 h3 h4 h5] ev show ?thesis by blast
qed

end
